theory Spec2Isabelle
  imports Main "HOL-Library.Word" "HOL-Library.Multiset"
begin

section \<open>GpuScan device code (cuda\_gpuscan.h)\<close>

text \<open>
  The kernel runs one thread per candidate row. Threads are partitioned into
  groups (CUDA blocks); a group shares the \<^verbatim>\<open>__shared__\<close> variables, meets at
  \<^verbatim>\<open>__syncthreads()\<close> and calls the prefix-scan primitive collectively. Groups
  interact only through \<^verbatim>\<open>atomicAdd\<close> on counters of the shared buffers.

  A group is modelled as the list of its threads in local-id order, and one
  collective call of a device function by a group as one function from the
  shared buffer to the shared buffer. An invocation is a schedule: the list
  of the groups in the order in which they run. A group's call is one step:
  the calls of two groups are not interleaved, so a counter that a group reads
  after its own \<^verbatim>\<open>atomicAdd\<close> has the value that \<^verbatim>\<open>atomicAdd\<close> left.
\<close>

subsection \<open>32-bit unsigned arithmetic\<close>

text \<open>
  \<^verbatim>\<open>cl_uint\<close> values are natural numbers below \<open>2 ^ 32\<close>; every \<^verbatim>\<open>cl_uint\<close>
  addition and subtraction of the source is written with its wrap-around.
\<close>

definition cl_uint_add :: "nat \<Rightarrow> nat \<Rightarrow> nat" where
  "cl_uint_add a b = (a + b) mod 2 ^ 32"

definition cl_uint_sub :: "nat \<Rightarrow> nat \<Rightarrow> nat" where
  "cl_uint_sub a b = (a + 2 ^ 32 - b mod 2 ^ 32) mod 2 ^ 32"

subsection \<open>The prefix-scan primitive\<close>

text \<open>
  Modelled from the spec: \<^verbatim>\<open>arithmetic_stairlike_add\<close> is called by this file
  but defined elsewhere. The spec gives its contract: within a group, each
  thread receives the sum of the values of the threads before it (exclusive
  prefix sum) and every thread receives the group's total. The source holds
  both results in \<^verbatim>\<open>cl_uint\<close> variables, hence the wrap-around.
\<close>

fun stairlike_offsets :: "nat \<Rightarrow> nat list \<Rightarrow> nat list" where
  "stairlike_offsets acc [] = []"
| "stairlike_offsets acc (v # vs) = acc # stairlike_offsets (cl_uint_add acc v) vs"

fun stairlike_total :: "nat \<Rightarrow> nat list \<Rightarrow> nat" where
  "stairlike_total acc [] = acc"
| "stairlike_total acc (v # vs) = stairlike_total (cl_uint_add acc v) vs"

definition arithmetic_stairlike_add :: "nat list \<Rightarrow> nat list \<times> nat" where
  "arithmetic_stairlike_add vs = (stairlike_offsets 0 vs, stairlike_total 0 vs)"

subsection \<open>The result buffer and \<^verbatim>\<open>gpuscan_writeback_results\<close>\<close>

text \<open>
  \<^verbatim>\<open>kern_resultbuf\<close>: the header fields and the memory that starts at
  \<^verbatim>\<open>results[0]\<close>, as a map from the cell index to the value stored there by the
  kernel (\<open>None\<close>: the kernel has not stored to the cell). The declared array
  is \<^verbatim>\<open>results[0 .. nrels * nrooms - 1]\<close> (\<^verbatim>\<open>KERN_GPUSCAN_RESULTBUF_LENGTH\<close>); a
  store to a higher cell index lands in the memory behind the buffer, as it
  does in C. The element type of \<^verbatim>\<open>results\<close> is declared elsewhere; the spec
  has it hold signed 1-based row indices, modelled as \<open>int\<close>.
\<close>

record kern_resultbuf =
  kr_nrels :: nat
  kr_nitems :: nat
  kr_nrooms :: nat
  kr_results :: "nat \<rightharpoonup> int"

text \<open>
  One thread's store, lines 125--128: \<open>gid\<close> is \<^verbatim>\<open>get_global_id()\<close>, \<open>base\<close>
  the shared variable, \<open>offset\<close> the thread's scan result.
\<close>

definition writeback_store ::
  "nat \<Rightarrow> (nat \<times> int) \<times> nat \<Rightarrow> (nat \<rightharpoonup> int) \<Rightarrow> (nat \<rightharpoonup> int)" where
  "writeback_store base t res =
     (case t of ((gid, result), offset) \<Rightarrow>
        (let result_index = gid + 1 in
         if result > 0 then res(cl_uint_add base offset \<mapsto> int result_index)
         else if result < 0 then res(cl_uint_add base offset \<mapsto> - int result_index)
         else res))"

text \<open>
  One group's collective call. A thread is the pair of its global id and the
  \<^verbatim>\<open>result\<close> argument it passes. The thread with local id 0 adds the group's
  count to \<^verbatim>\<open>kresults->nitems\<close> unconditionally and publishes the old value in
  \<^verbatim>\<open>base\<close>; nothing compares it with \<^verbatim>\<open>nrooms\<close>.
\<close>

definition gpuscan_writeback_results ::
  "(nat \<times> int) list \<Rightarrow> kern_resultbuf \<Rightarrow> kern_resultbuf" where
  "gpuscan_writeback_results grp kresults =
     (let binary = map (\<lambda>(gid, result). if result \<noteq> 0 then 1 else 0) grp;
          (offset, nitems) = arithmetic_stairlike_add binary;
          base = kr_nitems kresults
      in kresults
           \<lparr> kr_nitems := cl_uint_add (kr_nitems kresults) nitems,
             kr_results := fold (writeback_store base) (zip grp offset) (kr_results kresults) \<rparr>)"

text \<open>The accumulator run by every group of a schedule, in the schedule's order.\<close>

definition writeback_all ::
  "(nat \<times> int) list list \<Rightarrow> kern_resultbuf \<Rightarrow> kern_resultbuf" where
  "writeback_all sched kresults = fold gpuscan_writeback_results sched kresults"

text \<open>
  What the host finds in the buffer: the cells below \<^verbatim>\<open>nitems\<close> that lie in the
  declared array.
\<close>

definition rindex_recorded :: "kern_resultbuf \<Rightarrow> int set" where
  "rindex_recorded kr =
     {v. \<exists>k. k < kr_nitems kr \<and> k < kr_nrels kr * kr_nrooms kr \<and> kr_results kr k = Some v}"

text \<open>
  The signed 1-based indices of the rows that passed (\<open>result > 0\<close>) or need a
  recheck (\<open>result < 0\<close>).
\<close>

definition signed_rindex :: "nat \<times> int \<Rightarrow> int" where
  "signed_rindex t = (case t of (gid, result) \<Rightarrow>
     if result > 0 then int (gid + 1) else - int (gid + 1))"

definition rindex_expected :: "(nat \<times> int) list list \<Rightarrow> int set" where
  "rindex_expected sched = set (map signed_rindex (filter (\<lambda>t. snd t \<noteq> 0) (concat sched)))"

definition qualifying :: "(nat \<times> int) list \<Rightarrow> nat" where
  "qualifying grp = length (filter (\<lambda>t. snd t \<noteq> 0) grp)"

subsection \<open>Error codes and the kernel context\<close>

text \<open>
  Modelled from the spec: the error codes are declared elsewhere. The spec
  has one code per invocation from a closed set: success, data-store-no-space
  and the codes surfaced by the predicate and projection callables.
\<close>

datatype strom_error =
    StromError_Success
  | StromError_DataStoreNoSpace
  | StromError_Other nat

record kern_context =
  e_errcode :: strom_error

text \<open>
  Modelled from the spec: \<^verbatim>\<open>INIT_KERNEL_CONTEXT\<close>, \<^verbatim>\<open>STROM_SET_ERROR\<close> and
  \<^verbatim>\<open>kern_writeback_error_status\<close> are used by this file but defined elsewhere.
  The spec has the execution context hold the accumulated error code of a
  thread, starting from success, and the orchestrator make a best-effort write
  of a non-success code into a single shared error cell: a code already
  recorded is not replaced, and success never replaces a recorded code.
\<close>

definition INIT_KERNEL_CONTEXT :: kern_context where
  "INIT_KERNEL_CONTEXT = \<lparr> e_errcode = StromError_Success \<rparr>"

definition STROM_SET_ERROR :: "strom_error \<Rightarrow> kern_context \<Rightarrow> kern_context" where
  "STROM_SET_ERROR errcode kcxt =
     (if e_errcode kcxt = StromError_Success \<and> errcode \<noteq> StromError_Success
      then kcxt\<lparr> e_errcode := errcode \<rparr> else kcxt)"

definition kern_writeback_error_status :: "kern_context \<Rightarrow> strom_error \<Rightarrow> strom_error" where
  "kern_writeback_error_status own_error cell =
     (if e_errcode own_error \<noteq> StromError_Success \<and> cell = StromError_Success
      then e_errcode own_error else cell)"

subsection \<open>Tuple items, the destination store and its layout\<close>

text \<open>
  A source tuple item (\<^verbatim>\<open>kern_tupitem\<close>): its \<^verbatim>\<open>t_len\<close> field and the bytes
  found at its address, from the first byte of the item on. \<^verbatim>\<open>memcpy\<close> of
  \<open>n\<close> bytes from the item reads the first \<open>n\<close> of them.
\<close>

type_synonym byte = "8 word"

record kern_tupitem =
  t_len :: nat
  item_bytes :: "byte list"

text \<open>
  The layout constants come from macros and type declarations outside this
  file and are parameters of the model: the alignments of \<^verbatim>\<open>MAXALIGN\<close> and
  \<^verbatim>\<open>STROMALIGN\<close>, \<^verbatim>\<open>offsetof(kern_tupitem, htup)\<close> and
  \<^verbatim>\<open>KERN_DATA_STORE_HEAD_LENGTH(kds_dst)\<close>, the offset at which the index array
  (\<^verbatim>\<open>KERN_DATA_STORE_BODY\<close>) starts. Both alignment macros round a length up
  to the next multiple of their alignment.
\<close>

record kds_layout =
  MAXIMUM_ALIGNOF :: nat
  STROMALIGN_LEN :: nat
  tupitem_htup_offset :: nat
  KDS_HEAD_LENGTH :: nat

definition TYPEALIGN :: "nat \<Rightarrow> nat \<Rightarrow> nat" where
  "TYPEALIGN alignval len = ((len + (alignval - 1)) div alignval) * alignval"

definition MAXALIGN :: "kds_layout \<Rightarrow> nat \<Rightarrow> nat" where
  "MAXALIGN L len = TYPEALIGN (MAXIMUM_ALIGNOF L) len"

definition STROMALIGN :: "kds_layout \<Rightarrow> nat \<Rightarrow> nat" where
  "STROMALIGN L len = TYPEALIGN (STROMALIGN_LEN L) len"

datatype kds_format = KDS_FORMAT_ROW | KDS_FORMAT_SLOT

type_synonym slot_row = "64 word list \<times> bool list"

text \<open>
  The destination \<^verbatim>\<open>kern_data_store\<close>. \<open>kds_mem\<close> is the memory of the store
  by byte offset from its head (the row format's arena: index array from
  \<^verbatim>\<open>KERN_DATA_STORE_BODY\<close> upwards, tuples from \<^verbatim>\<open>length\<close> downwards);
  \<open>kds_slots\<close> holds, per row slot of the slot format, the \<^verbatim>\<open>Datum\<close> and
  null-flag arrays stored there.
\<close>

record kern_data_store =
  kds_length :: nat
  kds_usage :: nat
  kds_ncols :: nat
  kds_nitems :: nat
  kds_nrooms :: nat
  kds_format :: kds_format
  kds_mem :: "nat \<Rightarrow> byte"
  kds_slots :: "nat \<rightharpoonup> slot_row"

definition store_bytes :: "(nat \<Rightarrow> byte) \<Rightarrow> nat \<Rightarrow> byte list \<Rightarrow> (nat \<Rightarrow> byte)" where
  "store_bytes mem addr bs =
     (\<lambda>a. if addr \<le> a \<and> a < addr + length bs then bs ! (a - addr) else mem a)"

definition load_bytes :: "(nat \<Rightarrow> byte) \<Rightarrow> nat \<Rightarrow> nat \<Rightarrow> byte list" where
  "load_bytes mem addr n = map (\<lambda>k. mem (addr + k)) [0..<n]"

text \<open>The four bytes of a \<^verbatim>\<open>cl_uint\<close> in memory, least significant first.\<close>

definition cl_uint_bytes :: "nat \<Rightarrow> byte list" where
  "cl_uint_bytes v = map (\<lambda>k. of_nat (v div 256 ^ k)) [0..<4]"

subsection \<open>\<^verbatim>\<open>gpuscan_projection_row\<close>\<close>

text \<open>
  The source spells several variables in two ways (\<^verbatim>\<open>tuplen\<close> and
  \<^verbatim>\<open>tuple_len\<close>, \<^verbatim>\<open>prev_nitems\<close> and \<^verbatim>\<open>nitems_prev\<close>, \<^verbatim>\<open>prev_usage\<close> and
  \<^verbatim>\<open>usage_prev\<close>, \<^verbatim>\<open>tupsrc\<close> and \<^verbatim>\<open>tupitem_src\<close>); each pair is one variable
  here. The projection macro \<^verbatim>\<open>GPUSCAN_DEVICE_PROJECTION\<close> is not defined, so
  the \<^verbatim>\<open>#else\<close> branches are the code.

  A thread of the group is the pair of its context and its \<^verbatim>\<open>tupitem_src\<close>
  (\<open>None\<close> for \<^verbatim>\<open>NULL\<close>).
\<close>

text \<open>Step 1, line 189, and the thread's \<^verbatim>\<open>required\<close> of step 3, line 216.\<close>

definition row_tuple_len :: "kern_tupitem option \<Rightarrow> nat" where
  "row_tuple_len tupitem_src = (case tupitem_src of Some t \<Rightarrow> t_len t | None \<Rightarrow> 0)"

definition row_required :: "kds_layout \<Rightarrow> kern_tupitem option \<Rightarrow> nat" where
  "row_required L tupitem_src =
     MAXALIGN L (tupitem_htup_offset L + row_tuple_len tupitem_src) mod 2 ^ 32"

text \<open>
  Step 4 of one thread, lines 240--255: the \<^verbatim>\<open>memcpy\<close> of the item to
  \<^verbatim>\<open>htup_offset\<close> and the store of \<^verbatim>\<open>htup_offset\<close> into the index array. The
  thread is given with its two scan results and its \<^verbatim>\<open>required\<close>.
\<close>

definition row_item_index :: "nat \<Rightarrow> nat \<Rightarrow> nat" where
  "row_item_index nitems_prev offset = cl_uint_add nitems_prev offset"

definition row_htup_offset :: "nat \<Rightarrow> nat \<Rightarrow> nat \<Rightarrow> nat \<Rightarrow> nat" where
  "row_htup_offset len usage_prev offset required =
     cl_uint_sub len (cl_uint_add (cl_uint_add usage_prev offset) required)"

definition row_store ::
  "kds_layout \<Rightarrow> nat \<Rightarrow> nat \<Rightarrow> nat \<Rightarrow> kern_tupitem option \<times> nat \<times> nat \<times> nat \<Rightarrow>
   (nat \<Rightarrow> byte) \<Rightarrow> (nat \<Rightarrow> byte)" where
  "row_store L len nitems_prev usage_prev th mem =
     (case th of (tupitem_src, offset1, offset2, required) \<Rightarrow>
        (let item_index = row_item_index nitems_prev offset1;
             htup_offset = row_htup_offset len usage_prev offset2 required
         in case tupitem_src of
              None \<Rightarrow> mem
            | Some t \<Rightarrow>
                store_bytes
                  (store_bytes mem htup_offset
                     (take (tupitem_htup_offset L + t_len t) (item_bytes t)))
                  (KDS_HEAD_LENGTH L + 4 * item_index) (cl_uint_bytes htup_offset)))"

text \<open>
  What a thread that reaches step 4 with a row commits: its \<^verbatim>\<open>item_index\<close> and
  its \<^verbatim>\<open>htup_offset\<close>.
\<close>

definition row_commit ::
  "nat \<Rightarrow> nat \<Rightarrow> nat \<Rightarrow> kern_tupitem option \<times> nat \<times> nat \<times> nat \<Rightarrow> (nat \<times> nat) option" where
  "row_commit len nitems_prev usage_prev th =
     (case th of (tupitem_src, offset1, offset2, required) \<Rightarrow>
        (case tupitem_src of
           None \<Rightarrow> None
         | Some t \<Rightarrow> Some (row_item_index nitems_prev offset1,
                           row_htup_offset len usage_prev offset2 required)))"

text \<open>
  One group's collective call. It returns, per thread, the context after the
  call and what the thread committed, and the destination store. Both
  \<^verbatim>\<open>atomicAdd\<close>s come before their checks and are not undone. The sum of the
  check in lines 227--229 has \<^verbatim>\<open>size_t\<close> operands and does not wrap. Every
  thread finds in \<^verbatim>\<open>kds_dst->nitems\<close>, in line 228, the value that the
  \<^verbatim>\<open>atomicAdd\<close> of its own group left: no other group adds in between.
\<close>

definition gpuscan_projection_row ::
  "kds_layout \<Rightarrow> (kern_context \<times> kern_tupitem option) list \<Rightarrow> kern_data_store \<Rightarrow>
   (kern_context \<times> (nat \<times> nat) option) list \<times> kern_data_store" where
  "gpuscan_projection_row L grp kds_dst =
     (let tupitem_src = map snd grp;
          (offset1, count1) =
             arithmetic_stairlike_add (map (\<lambda>t. if t \<noteq> None then 1 else 0) tupitem_src);
          nitems_prev = (if count1 > 0 then kds_nitems kds_dst else 0);
          kds1 = (if count1 > 0
                  then kds_dst\<lparr> kds_nitems := cl_uint_add (kds_nitems kds_dst) count1 \<rparr>
                  else kds_dst)
      in if cl_uint_add nitems_prev count1 > kds_nrooms kds1
         then (map (\<lambda>(kcxt, t). (STROM_SET_ERROR StromError_DataStoreNoSpace kcxt, None)) grp, kds1)
         else
           (let required = map (row_required L) tupitem_src;
                (offset2, count2) = arithmetic_stairlike_add required;
                usage_prev = (if count2 > 0 then kds_usage kds1 else 0);
                kds2 = (if count2 > 0
                        then kds1\<lparr> kds_usage := cl_uint_add (kds_usage kds1) count2 \<rparr>
                        else kds1)
            in if KDS_HEAD_LENGTH L + STROMALIGN L (4 * kds_nitems kds2) + usage_prev + count2
                    > kds_length kds2
               then (map (\<lambda>(kcxt, t). (STROM_SET_ERROR StromError_DataStoreNoSpace kcxt, None)) grp,
                     kds2)
               else
                 (let ths = zip tupitem_src (zip offset1 (zip offset2 required))
                  in (zip (map fst grp) (map (row_commit (kds_length kds2) nitems_prev usage_prev) ths),
                      kds2\<lparr> kds_mem :=
                        fold (row_store L (kds_length kds2) nitems_prev usage_prev) ths
                          (kds_mem kds2) \<rparr>))))"

text \<open>The row projector run by every group of a schedule, in the schedule's order.\<close>

fun projection_row_all ::
  "kds_layout \<Rightarrow> (kern_context \<times> kern_tupitem option) list list \<Rightarrow> kern_data_store \<Rightarrow>
   (kern_context \<times> (nat \<times> nat) option) list list \<times> kern_data_store" where
  "projection_row_all L [] kds_dst = ([], kds_dst)"
| "projection_row_all L (grp # sched) kds_dst =
     (let (res, kds1) = gpuscan_projection_row L grp kds_dst;
          (ress, kds2) = projection_row_all L sched kds1
      in (res # ress, kds2))"

subsection \<open>\<^verbatim>\<open>gpuscan_projection_row\<close> among the other groups\<close>

text \<open>
  The check of lines 227--229 reads \<^verbatim>\<open>kds_dst->nitems\<close> from the store again,
  in every thread, after the barrier of line 225. Other groups add to that
  counter in the meantime, so two threads of one group may read different
  values, and one may pass the check where the other raises the error. Here a
  thread is given with the value it reads in line 228. \<^verbatim>\<open>usage_prev\<close> and
  \<^verbatim>\<open>count\<close> are the group's own, the same for all its threads.

  The condition of lines 227--229 for a thread that reads \<open>nitems_read\<close>:
\<close>

definition row_no_space :: "kds_layout \<Rightarrow> nat \<Rightarrow> nat \<Rightarrow> nat \<Rightarrow> nat \<Rightarrow> bool" where
  "row_no_space L len usage_prev count2 nitems_read =
     (KDS_HEAD_LENGTH L + STROMALIGN L (4 * nitems_read) + usage_prev + count2 > len)"

text \<open>
  Lines 227--255 of one thread, given with its context, its scan results and
  the value it reads: what it returns and commits, and what it stores.
\<close>

definition row_thread_result ::
  "kds_layout \<Rightarrow> nat \<Rightarrow> nat \<Rightarrow> nat \<Rightarrow> nat \<Rightarrow>
   (kern_context \<times> kern_tupitem option \<times> nat \<times> nat \<times> nat) \<times> nat \<Rightarrow>
   kern_context \<times> (nat \<times> nat) option" where
  "row_thread_result L len nitems_prev usage_prev count2 w =
     (case w of ((kcxt, th), nitems_read) \<Rightarrow>
        if row_no_space L len usage_prev count2 nitems_read
        then (STROM_SET_ERROR StromError_DataStoreNoSpace kcxt, None)
        else (kcxt, row_commit len nitems_prev usage_prev th))"

definition row_thread_store ::
  "kds_layout \<Rightarrow> nat \<Rightarrow> nat \<Rightarrow> nat \<Rightarrow> nat \<Rightarrow>
   (kern_context \<times> kern_tupitem option \<times> nat \<times> nat \<times> nat) \<times> nat \<Rightarrow>
   (nat \<Rightarrow> byte) \<Rightarrow> (nat \<Rightarrow> byte)" where
  "row_thread_store L len nitems_prev usage_prev count2 w mem =
     (case w of ((kcxt, th), nitems_read) \<Rightarrow>
        if row_no_space L len usage_prev count2 nitems_read
        then mem
        else row_store L len nitems_prev usage_prev th mem)"

text \<open>
  One group's collective call, every thread with the value it reads in line
  228. Steps 1 to 3 are those of \<open>gpuscan_projection_row\<close>.
\<close>

definition gpuscan_projection_row_reads ::
  "kds_layout \<Rightarrow> ((kern_context \<times> kern_tupitem option) \<times> nat) list \<Rightarrow> kern_data_store \<Rightarrow>
   (kern_context \<times> (nat \<times> nat) option) list \<times> kern_data_store" where
  "gpuscan_projection_row_reads L grp kds_dst =
     (let tupitem_src = map snd (map fst grp);
          (offset1, count1) =
             arithmetic_stairlike_add (map (\<lambda>t. if t \<noteq> None then 1 else 0) tupitem_src);
          nitems_prev = (if count1 > 0 then kds_nitems kds_dst else 0);
          kds1 = (if count1 > 0
                  then kds_dst\<lparr> kds_nitems := cl_uint_add (kds_nitems kds_dst) count1 \<rparr>
                  else kds_dst)
      in if cl_uint_add nitems_prev count1 > kds_nrooms kds1
         then (map (\<lambda>((kcxt, t), nitems_read).
                      (STROM_SET_ERROR StromError_DataStoreNoSpace kcxt, None)) grp, kds1)
         else
           (let required = map (row_required L) tupitem_src;
                (offset2, count2) = arithmetic_stairlike_add required;
                usage_prev = (if count2 > 0 then kds_usage kds1 else 0);
                kds2 = (if count2 > 0
                        then kds1\<lparr> kds_usage := cl_uint_add (kds_usage kds1) count2 \<rparr>
                        else kds1);
                ths = zip tupitem_src (zip offset1 (zip offset2 required));
                ws = zip (zip (map fst (map fst grp)) ths) (map snd grp)
            in (map (row_thread_result L (kds_length kds2) nitems_prev usage_prev count2) ws,
                kds2\<lparr> kds_mem :=
                  fold (row_thread_store L (kds_length kds2) nitems_prev usage_prev count2) ws
                    (kds_mem kds2) \<rparr>)))"

text \<open>That call made by every group of a schedule, in the schedule's order.\<close>

fun projection_row_reads_all ::
  "kds_layout \<Rightarrow> ((kern_context \<times> kern_tupitem option) \<times> nat) list list \<Rightarrow> kern_data_store \<Rightarrow>
   (kern_context \<times> (nat \<times> nat) option) list list \<times> kern_data_store" where
  "projection_row_reads_all L [] kds_dst = ([], kds_dst)"
| "projection_row_reads_all L (grp # sched) kds_dst =
     (let (res, kds1) = gpuscan_projection_row_reads L grp kds_dst;
          (ress, kds2) = projection_row_reads_all L sched kds1
      in (res # ress, kds2))"

subsection \<open>\<^verbatim>\<open>gpuscan_projection_slot\<close>\<close>

text \<open>
  \<^verbatim>\<open>deform_kern_heaptuple\<close> is defined elsewhere; \<open>deform\<close> stands for the
  values and null flags it extracts from an item for the given number of
  columns. One thread's store, lines 298--313:
\<close>

definition slot_store ::
  "(kern_tupitem \<Rightarrow> nat \<Rightarrow> slot_row) \<Rightarrow> nat \<Rightarrow> nat \<Rightarrow> kern_tupitem option \<times> nat \<Rightarrow>
   (nat \<rightharpoonup> slot_row) \<Rightarrow> (nat \<rightharpoonup> slot_row)" where
  "slot_store deform ncols base th slots =
     (case th of (tupitem_src, offset) \<Rightarrow>
        (let dst_index = cl_uint_add base offset
         in case tupitem_src of
              None \<Rightarrow> slots
            | Some t \<Rightarrow> slots(dst_index \<mapsto> deform t ncols)))"

definition gpuscan_projection_slot ::
  "(kern_tupitem \<Rightarrow> nat \<Rightarrow> slot_row) \<Rightarrow> (kern_context \<times> kern_tupitem option) list \<Rightarrow>
   kern_data_store \<Rightarrow> kern_context list \<times> kern_data_store" where
  "gpuscan_projection_slot deform grp kds_dst =
     (let tupitem_src = map snd grp;
          (offset, count) =
             arithmetic_stairlike_add (map (\<lambda>t. if t \<noteq> None then 1 else 0) tupitem_src);
          base = (if count > 0 then kds_nitems kds_dst else 0);
          kds1 = (if count > 0
                  then kds_dst\<lparr> kds_nitems := cl_uint_add (kds_nitems kds_dst) count \<rparr>
                  else kds_dst)
      in if cl_uint_add base count > kds_nrooms kds1
         then (map (\<lambda>(kcxt, t). STROM_SET_ERROR StromError_DataStoreNoSpace kcxt) grp, kds1)
         else (map fst grp,
               kds1\<lparr> kds_slots :=
                 fold (slot_store deform (kds_ncols kds1) base) (zip tupitem_src offset)
                   (kds_slots kds1) \<rparr>))"

subsection \<open>The kernel entry point \<^verbatim>\<open>gpuscan_qual\<close>\<close>

text \<open>
  \<^verbatim>\<open>kern_gpuscan\<close> as the kernel uses it: the result buffer found behind the
  parameter buffer (\<^verbatim>\<open>KERN_GPUSCAN_RESULTBUF\<close>) and the error cell
  \<^verbatim>\<open>kgpuscan->errcode\<close> of line 367. The source batch is the list of its tuple
  items (\<^verbatim>\<open>KERN_DATA_STORE_TUPITEM(kds_src, kds_index)\<close> is element \<open>kds_index\<close>,
  \<^verbatim>\<open>nitems\<close> the length). \<^verbatim>\<open>gpuscan_qual_eval\<close> is generated on the fly and is a
  parameter: from the fresh context and the item it returns the visibility
  flag and the context it leaves. The calls of the projectors in lines 360 and
  362 do not match the projectors' parameter lists; the thread's \<^verbatim>\<open>tupitem\<close>,
  which lines 336--347 compute for no other use, is what is passed.
\<close>

record kern_gpuscan =
  kresults :: kern_resultbuf
  kg_errcode :: strom_error

text \<open>Lines 331--347 of one thread: its context and its \<^verbatim>\<open>tupitem\<close>.\<close>

definition qual_tupitem ::
  "(kern_context \<Rightarrow> kern_tupitem \<Rightarrow> bool \<times> kern_context) \<Rightarrow> kern_tupitem list \<Rightarrow> nat \<Rightarrow>
   kern_context \<times> kern_tupitem option" where
  "qual_tupitem gpuscan_qual_eval kds_src kds_index =
     (let kcxt = INIT_KERNEL_CONTEXT
      in if kds_index < length kds_src
         then (let tupitem = kds_src ! kds_index;
                   (visible, kcxt1) = gpuscan_qual_eval kcxt tupitem
               in if \<not> visible then (kcxt1, None)
                  else if e_errcode kcxt1 \<noteq> StromError_Success then (kcxt1, None)
                  else (kcxt1, Some tupitem))
         else (kcxt, None))"

text \<open>
  One group's run of the kernel: \<open>grp\<close> lists the global ids of its threads.
  Every thread calls the projector of the destination's format and then
  writes its error status back. \<^verbatim>\<open>kresults\<close> is computed in line 328 and not
  used: \<^verbatim>\<open>gpuscan_writeback_results\<close> is not called.
\<close>

definition gpuscan_qual ::
  "kds_layout \<Rightarrow> (kern_context \<Rightarrow> kern_tupitem \<Rightarrow> bool \<times> kern_context) \<Rightarrow>
   (kern_tupitem \<Rightarrow> nat \<Rightarrow> slot_row) \<Rightarrow> kern_tupitem list \<Rightarrow> nat list \<Rightarrow>
   kern_gpuscan \<times> kern_data_store \<Rightarrow> kern_gpuscan \<times> kern_data_store" where
  "gpuscan_qual L gpuscan_qual_eval deform kds_src grp st =
     (case st of (kgpuscan, kds_dst) \<Rightarrow>
        (let threads = map (qual_tupitem gpuscan_qual_eval kds_src) grp;
             (kcxts, kds1) =
               (if kds_format kds_dst = KDS_FORMAT_ROW
                then (let (res, k) = gpuscan_projection_row L threads kds_dst in (map fst res, k))
                else gpuscan_projection_slot deform threads kds_dst)
         in (kgpuscan\<lparr> kg_errcode := fold kern_writeback_error_status kcxts (kg_errcode kgpuscan) \<rparr>,
             kds1)))"

text \<open>An invocation: every group of the schedule runs the kernel.\<close>

definition gpuscan_qual_all ::
  "kds_layout \<Rightarrow> (kern_context \<Rightarrow> kern_tupitem \<Rightarrow> bool \<times> kern_context) \<Rightarrow>
   (kern_tupitem \<Rightarrow> nat \<Rightarrow> slot_row) \<Rightarrow> kern_tupitem list \<Rightarrow> nat list list \<Rightarrow>
   kern_gpuscan \<times> kern_data_store \<Rightarrow> kern_gpuscan \<times> kern_data_store" where
  "gpuscan_qual_all L gpuscan_qual_eval deform kds_src sched st =
     fold (gpuscan_qual L gpuscan_qual_eval deform kds_src) sched st"

subsection \<open>Quantities and conditions of the row projector's statements\<close>

text \<open>
  The number of threads of a group that hold a row, and the bytes the group
  asks for in step 3 (every thread's \<^verbatim>\<open>MAXALIGN(offsetof(kern_tupitem, htup) +
  tuple_len)\<close>, before the value is cut to a \<^verbatim>\<open>cl_uint\<close>).
\<close>

definition row_count :: "(kern_context \<times> kern_tupitem option) list \<Rightarrow> nat" where
  "row_count grp = sum_list (map (\<lambda>t. if t \<noteq> None then 1 else 0) (map snd grp))"

definition row_raw :: "kds_layout \<Rightarrow> kern_tupitem option \<Rightarrow> nat" where
  "row_raw L tupitem_src = MAXALIGN L (tupitem_htup_offset L + row_tuple_len tupitem_src)"

definition row_bytes :: "kds_layout \<Rightarrow> (kern_context \<times> kern_tupitem option) list \<Rightarrow> nat" where
  "row_bytes L grp = sum_list (map (row_raw L) (map snd grp))"

text \<open>
  A well-formed item: \<^verbatim>\<open>t_len > 0\<close>, as line 191 asserts, and the item's
  memory covers the \<^verbatim>\<open>offsetof(kern_tupitem, htup) + t_len\<close> bytes that are
  copied.
\<close>

definition item_ok :: "kds_layout \<Rightarrow> kern_tupitem option \<Rightarrow> bool" where
  "item_ok L tupitem_src =
     (case tupitem_src of None \<Rightarrow> True
      | Some t \<Rightarrow> 0 < t_len t \<and> tupitem_htup_offset L + t_len t \<le> length (item_bytes t))"

text \<open>
  The inputs the statements about the arena are made for: the alignments are
  positive, the store's \<^verbatim>\<open>length\<close> is a \<^verbatim>\<open>cl_uint\<close>, the two 32-bit counters
  do not wrap in the invocation (each grows by every group's count or bytes,
  whether the group succeeds or not), and the items are well-formed.
\<close>

definition row_input_ok ::
  "kds_layout \<Rightarrow> (kern_context \<times> kern_tupitem option) list list \<Rightarrow> kern_data_store \<Rightarrow> bool" where
  "row_input_ok L sched kds =
     (0 < MAXIMUM_ALIGNOF L \<and> 0 < STROMALIGN_LEN L \<and> kds_length kds < 2 ^ 32 \<and>
      kds_nitems kds + sum_list (map row_count sched) < 2 ^ 32 \<and>
      kds_usage kds + sum_list (map (row_bytes L) sched) < 2 ^ 32 \<and>
      (\<forall>grp \<in> set sched. \<forall>th \<in> set grp. item_ok L (snd th)))"

definition row_group_ok ::
  "kds_layout \<Rightarrow> (kern_context \<times> kern_tupitem option) list \<Rightarrow> kern_data_store \<Rightarrow> bool" where
  "row_group_ok L grp kds = row_input_ok L [grp] kds"

text \<open>The threads of a group with their scan results, as step 4 sees them.\<close>

definition row_threads ::
  "kds_layout \<Rightarrow> nat \<Rightarrow> nat \<Rightarrow> kern_tupitem option list \<Rightarrow>
   (kern_tupitem option \<times> nat \<times> nat \<times> nat) list" where
  "row_threads L a1 a2 tups =
     zip tups (zip (stairlike_offsets a1 (map (\<lambda>t. if t \<noteq> None then 1 else 0) tups))
       (zip (stairlike_offsets a2 (map (row_required L) tups)) (map (row_required L) tups)))"

definition tups_count :: "kern_tupitem option list \<Rightarrow> nat" where
  "tups_count tups = sum_list (map (\<lambda>t. if t \<noteq> None then 1 else 0) tups)"

definition tups_bytes :: "kds_layout \<Rightarrow> kern_tupitem option list \<Rightarrow> nat" where
  "tups_bytes L tups = sum_list (map (row_raw L) tups)"


text \<open>
  What a thread with a row committed: its \<^verbatim>\<open>item_index\<close>, its \<^verbatim>\<open>htup_offset\<close>
  and the number of bytes copied there, \<^verbatim>\<open>offsetof(kern_tupitem, htup) + t_len\<close>.
  \<open>row_extents\<close> lists that for all threads of an invocation. It covers an
  address that lies in the four bytes of the index-array entry or in the
  copied bytes.
\<close>

definition row_thread_extent ::
  "kds_layout \<Rightarrow> ((kern_context \<times> kern_tupitem option) \<times> nat) \<times> (kern_context \<times> (nat \<times> nat) option) \<Rightarrow>
   (nat \<times> nat \<times> nat) option" where
  "row_thread_extent L p =
     (case p of (((kcxt, t), nitems_read), (kcxt', cm)) \<Rightarrow>
        (case t of None \<Rightarrow> None
         | Some x \<Rightarrow>
             (case cm of None \<Rightarrow> None
              | Some (item_index, htup_offset) \<Rightarrow>
                  Some (item_index, htup_offset, tupitem_htup_offset L + t_len x))))"

definition row_extents ::
  "kds_layout \<Rightarrow> ((kern_context \<times> kern_tupitem option) \<times> nat) list list \<Rightarrow>
   (kern_context \<times> (nat \<times> nat) option) list list \<Rightarrow> (nat \<times> nat \<times> nat) list" where
  "row_extents L sched ress =
     List.map_filter (row_thread_extent L) (concat (map (\<lambda>(grp, res). zip grp res) (zip sched ress)))"


text \<open>
  A row is copied at a commit when the destination holds, at \<^verbatim>\<open>htup_offset\<close>,
  the \<^verbatim>\<open>offsetof(kern_tupitem, htup) + t_len\<close> bytes of the source item, and the
  index-array entry \<^verbatim>\<open>item_index\<close> holds \<^verbatim>\<open>htup_offset\<close>. A thread's result is
  verbatim when a thread without a row commits nothing, and a thread with a
  row either kept its context and has its row copied, or committed nothing
  and had the no-space error raised.
\<close>

definition row_copied :: "kds_layout \<Rightarrow> (nat \<Rightarrow> byte) \<Rightarrow> kern_tupitem \<Rightarrow> nat \<times> nat \<Rightarrow> bool" where
  "row_copied L mem x p =
     (case p of (item_index, htup_offset) \<Rightarrow>
        load_bytes mem htup_offset (tupitem_htup_offset L + t_len x)
          = take (tupitem_htup_offset L + t_len x) (item_bytes x) \<and>
        load_bytes mem (KDS_HEAD_LENGTH L + 4 * item_index) 4 = cl_uint_bytes htup_offset)"

definition thread_verbatim ::
  "kds_layout \<Rightarrow> (nat \<Rightarrow> byte) \<Rightarrow> kern_context \<times> kern_tupitem option \<Rightarrow>
   kern_context \<times> (nat \<times> nat) option \<Rightarrow> bool" where
  "thread_verbatim L mem th r =
     (case snd th of
        None \<Rightarrow> snd r = None
      | Some x \<Rightarrow>
          (case snd r of
             Some p \<Rightarrow> fst r = fst th \<and> row_copied L mem x p
           | None \<Rightarrow> fst r = STROM_SET_ERROR StromError_DataStoreNoSpace (fst th)))"

text \<open>
  The number of threads of a group, and of a schedule, that come out of lines
  336--347 with a row.
\<close>

definition qual_count ::
  "(kern_context \<Rightarrow> kern_tupitem \<Rightarrow> bool \<times> kern_context) \<Rightarrow> kern_tupitem list \<Rightarrow> nat list \<Rightarrow> nat" where
  "qual_count ev kds_src grp = row_count (map (qual_tupitem ev kds_src) grp)"

definition total_qual_count ::
  "(kern_context \<Rightarrow> kern_tupitem \<Rightarrow> bool \<times> kern_context) \<Rightarrow> kern_tupitem list \<Rightarrow> nat list list \<Rightarrow> nat" where
  "total_qual_count ev kds_src sched = sum_list (map (qual_count ev kds_src) sched)"

subsection \<open>Inputs used in the statements\<close>

text \<open>The number of pass or recheck rows of a whole schedule.\<close>

definition total_qualifying :: "(nat \<times> int) list list \<Rightarrow> nat" where
  "total_qualifying sched = sum_list (map qualifying sched)"

text \<open>
  The buffer as the caller hands it over: \<^verbatim>\<open>nrels = 1\<close>, every other field
  zero (``Gpuscan kernel code assumes all the fields shall be initialized to
  zero''), \<open>n\<close> rooms.
\<close>

definition resultbuf_init :: "nat \<Rightarrow> kern_resultbuf" where
  "resultbuf_init n = \<lparr> kr_nrels = 1, kr_nitems = 0, kr_nrooms = n, kr_results = Map.empty \<rparr>"

text \<open>
  Scenario A of the spec: eight candidate rows in two groups of four; the
  rows at 0-based positions 1, 3, 4 and 7 pass.
\<close>

definition scenario_A :: "(nat \<times> int) list list" where
  "scenario_A = [[(0, 0), (1, 1), (2, 0), (3, 1)], [(4, 1), (5, 0), (6, 0), (7, 1)]]"

text \<open>
  The error code with which \<^verbatim>\<open>gpuscan_qual_eval\<close> leaves the context of the
  thread of row \<open>g\<close>.
\<close>

definition qual_error :: "(kern_context \<Rightarrow> kern_tupitem \<Rightarrow> bool \<times> kern_context) \<Rightarrow> kern_tupitem list \<Rightarrow> nat \<Rightarrow> strom_error" where
  "qual_error ev kds_src g = e_errcode (snd (ev INIT_KERNEL_CONTEXT (kds_src ! g)))"

text \<open>
  A row that comes out of lines 336--347 with its tuple item: it is in range,
  the predicate reports it visible and leaves no error code. \<open>qual_demote\<close>
  makes of a predicate the one that reports a row it failed on as not visible
  and leaves the same context.
\<close>

definition qual_clean ::
  "(kern_context \<Rightarrow> kern_tupitem \<Rightarrow> bool \<times> kern_context) \<Rightarrow> kern_tupitem list \<Rightarrow> nat \<Rightarrow> bool" where
  "qual_clean ev kds_src g =
     (g < length kds_src \<and> fst (ev INIT_KERNEL_CONTEXT (kds_src ! g)) \<and>
      qual_error ev kds_src g = StromError_Success)"

definition qual_demote ::
  "(kern_context \<Rightarrow> kern_tupitem \<Rightarrow> bool \<times> kern_context) \<Rightarrow>
   kern_context \<Rightarrow> kern_tupitem \<Rightarrow> bool \<times> kern_context" where
  "qual_demote ev kcxt tupitem =
     (case ev kcxt tupitem of
        (visible, kcxt1) \<Rightarrow> (visible \<and> e_errcode kcxt1 = StromError_Success, kcxt1))"

text \<open>
  Concrete inputs. The layout has 8-byte \<^verbatim>\<open>MAXALIGN\<close>, 16-byte \<^verbatim>\<open>STROMALIGN\<close>,
  \<^verbatim>\<open>htup\<close> at offset 8 of a tuple item and a 64-byte store header.
\<close>

definition layout0 :: kds_layout where
  "layout0 = \<lparr> MAXIMUM_ALIGNOF = 8, STROMALIGN_LEN = 16, tupitem_htup_offset = 8, KDS_HEAD_LENGTH = 64 \<rparr>"

definition tupitem0 :: "nat \<Rightarrow> kern_tupitem" where
  "tupitem0 k = \<lparr> t_len = 4, item_bytes = map of_nat [k, 0, 0, 0, 0, 0, 0, 0, k + 1, k + 2, k + 3, k + 4] \<rparr>"

definition tupitem1 :: "nat \<Rightarrow> kern_tupitem" where
  "tupitem1 k = \<lparr> t_len = 8, item_bytes = map of_nat [k, 0, 0, 0, 0, 0, 0, 0, 1, 2, 3, 4, 5, 6, 7, 8] \<rparr>"

text \<open>A predicate that passes every row, and one that fails on items longer than 4 bytes.\<close>

definition eval_pass :: "kern_context \<Rightarrow> kern_tupitem \<Rightarrow> bool \<times> kern_context" where
  "eval_pass kcxt t = (True, kcxt)"

definition eval_len :: "kern_context \<Rightarrow> kern_tupitem \<Rightarrow> bool \<times> kern_context" where
  "eval_len kcxt t = (True, if t_len t > 4 then kcxt\<lparr> e_errcode := StromError_Other 7 \<rparr> else kcxt)"

definition deform0 :: "kern_tupitem \<Rightarrow> nat \<Rightarrow> slot_row" where
  "deform0 t ncols = (map (\<lambda>b. of_nat (unat b)) (take ncols (drop 8 (item_bytes t))), replicate ncols False)"

text \<open>A destination and a \<^verbatim>\<open>kern_gpuscan\<close> as the caller hands them over.\<close>

definition kds_empty :: "kds_format \<Rightarrow> nat \<Rightarrow> nat \<Rightarrow> kern_data_store" where
  "kds_empty fmt len nrooms =
     \<lparr> kds_length = len, kds_usage = 0, kds_ncols = 1, kds_nitems = 0, kds_nrooms = nrooms,
       kds_format = fmt, kds_mem = (\<lambda>a. 0), kds_slots = Map.empty \<rparr>"

definition gpuscan_init :: "nat \<Rightarrow> kern_gpuscan" where
  "gpuscan_init n = \<lparr> kresults = resultbuf_init n, kg_errcode = StromError_Success \<rparr>"

text \<open>Scenario B of the spec: four qualifying rows in one group, two rooms.\<close>

definition scenario_B_src :: "kern_tupitem list" where
  "scenario_B_src = [tupitem0 10, tupitem0 20, tupitem0 30, tupitem0 40]"

text \<open>
  Two groups for a row-format arena of 128 bytes: the first holds two rows and
  a thread without a row, the second one row that no longer fits.
  \<open>scenario_C_reads\<close> is that schedule with the value every thread reads in
  line 228 when no other group's add comes in between. In \<open>scenario_D\<close>, for
  an arena of 120 bytes, the second thread of the first group reads the
  counter after the second group has added its three rows.
\<close>

definition scenario_C :: "(kern_context \<times> kern_tupitem option) list list" where
  "scenario_C =
     [[(INIT_KERNEL_CONTEXT, Some (tupitem0 10)), (INIT_KERNEL_CONTEXT, None),
       (INIT_KERNEL_CONTEXT, Some (tupitem1 20))],
      [(INIT_KERNEL_CONTEXT, Some (tupitem0 30))]]"




section \<open>Properties\<close>

subsection \<open>The prefix scan and the accumulator\<close>

lemma stairlike_total_sum:
  "acc < 2 ^ 32 \<Longrightarrow> stairlike_total acc vs = (acc + sum_list vs) mod 2 ^ 32"
proof (induction vs arbitrary: acc)
  case Nil
  then show ?case by simp
next
  case (Cons v vs)
  have "cl_uint_add acc v < 2 ^ 32" by (simp add: cl_uint_add_def)
  from Cons.IH [OF this] show ?case
    by (simp add: cl_uint_add_def mod_add_left_eq add.assoc)
qed

lemma sum_list_binary: "sum_list (map (\<lambda>(gid, result). if result \<noteq> 0 then 1 else 0) grp) = qualifying grp"
  by (induction grp) (auto simp: qualifying_def)

lemma writeback_fold:
  "base + acc + qualifying grp < 2 ^ 32 \<Longrightarrow>
   res' = fold (writeback_store base)
            (zip grp (stairlike_offsets acc (map (\<lambda>(gid, result). if result \<noteq> 0 then 1 else 0) grp))) res \<Longrightarrow>
   (\<forall>k. k < base + acc \<or> base + acc + qualifying grp \<le> k \<longrightarrow> res' k = res k) \<and>
   res' ` {base + acc ..< base + acc + qualifying grp} = Some ` signed_rindex ` {t \<in> set grp. snd t \<noteq> 0}"
proof (induction grp arbitrary: acc res res')
  case Nil
  then show ?case by (simp add: qualifying_def)
next
  case (Cons t grp)
  obtain gid result where t: "t = (gid, result)" by (cases t)
  show ?case
  proof (cases "result = 0")
    case True
    have q0: "qualifying (t # grp) = qualifying grp"
      using True by (simp add: t qualifying_def)
    have acc0: "cl_uint_add acc 0 = acc"
      using Cons.prems(1) by (simp add: cl_uint_add_def)
    have st0: "writeback_store base (t, acc) res = res"
      using True by (simp add: t writeback_store_def)
    have r0: "res' = fold (writeback_store base)
            (zip grp (stairlike_offsets acc (map (\<lambda>(gid, result). if result \<noteq> 0 then 1 else 0) grp))) res"
      using Cons.prems(2) True st0 acc0 by (simp add: t)
    have b0: "base + acc + qualifying grp < 2 ^ 32"
      using Cons.prems(1) q0 by simp
    have s0: "{u \<in> set (t # grp). snd u \<noteq> 0} = {u \<in> set grp. snd u \<noteq> 0}"
      using True by (auto simp: t)
    show ?thesis using Cons.IH [OF b0 r0] unfolding q0 s0 .
  next
    case False
    define res1 where "res1 = res(base + acc \<mapsto> signed_rindex t)"
    have q: "qualifying (t # grp) = Suc (qualifying grp)"
      using False by (simp add: t qualifying_def)
    have acc1: "cl_uint_add acc 1 = acc + 1"
      using Cons.prems(1) q by (simp add: cl_uint_add_def)
    have st: "writeback_store base (t, acc) res = res1"
      using False Cons.prems(1) by (auto simp: t writeback_store_def res1_def signed_rindex_def cl_uint_add_def)
    have r': "res' = fold (writeback_store base)
            (zip grp (stairlike_offsets (acc + 1) (map (\<lambda>(gid, result). if result \<noteq> 0 then 1 else 0) grp))) res1"
      using Cons.prems(2) False st acc1 by (simp add: t)
    have b: "base + (acc + 1) + qualifying grp < 2 ^ 32"
      using Cons.prems(1) q by simp
    note ih = Cons.IH [OF b r']
    from ih have ih1: "\<And>k. k < base + (acc + 1) \<or> base + (acc + 1) + qualifying grp \<le> k \<Longrightarrow> res' k = res1 k"
      by blast
    from ih have ih2: "res' ` {base + (acc + 1) ..< base + (acc + 1) + qualifying grp} = Some ` signed_rindex ` {t \<in> set grp. snd t \<noteq> 0}"
      by blast
    have keep: "res' (base + acc) = Some (signed_rindex t)"
      using ih1 [of "base + acc"] by (simp add: res1_def)
    have out: "\<forall>k. k < base + acc \<or> base + acc + qualifying (t # grp) \<le> k \<longrightarrow> res' k = res k"
    proof (intro allI impI)
      fix k assume k: "k < base + acc \<or> base + acc + qualifying (t # grp) \<le> k"
      then have "res' k = res1 k" using ih1 [of k] q by auto
      moreover have "k \<noteq> base + acc" using k q by auto
      ultimately show "res' k = res k" by (simp add: res1_def)
    qed
    have split: "{base + acc ..< base + acc + qualifying (t # grp)}
        = insert (base + acc) {base + (acc + 1) ..< base + (acc + 1) + qualifying grp}"
      using q by auto
    have sett: "{u \<in> set (t # grp). snd u \<noteq> 0} = insert t {u \<in> set grp. snd u \<noteq> 0}"
      using False by (auto simp: t)
    have "res' ` {base + acc ..< base + acc + qualifying (t # grp)}
        = insert (Some (signed_rindex t)) (Some ` signed_rindex ` {u \<in> set grp. snd u \<noteq> 0})"
      unfolding split using ih2 keep by simp
    then show ?thesis using out sett by simp
  qed
qed

lemma writeback_group:
  assumes b: "kr_nitems kr + qualifying grp < 2 ^ 32"
  shows "kr_nitems (gpuscan_writeback_results grp kr) = kr_nitems kr + qualifying grp"
    and "kr_nrooms (gpuscan_writeback_results grp kr) = kr_nrooms kr"
    and "kr_nrels (gpuscan_writeback_results grp kr) = kr_nrels kr"
    and "\<And>k. k < kr_nitems kr \<or> kr_nitems kr + qualifying grp \<le> k \<Longrightarrow>
           kr_results (gpuscan_writeback_results grp kr) k = kr_results kr k"
    and "kr_results (gpuscan_writeback_results grp kr) ` {kr_nitems kr ..< kr_nitems kr + qualifying grp}
           = Some ` signed_rindex ` {t \<in> set grp. snd t \<noteq> 0}"
proof -
  let ?bin = "map (\<lambda>(gid, result). if result \<noteq> 0 then 1 else 0) grp"
  have tot: "stairlike_total 0 ?bin = qualifying grp"
    using b by (simp add: stairlike_total_sum sum_list_binary)
  have res: "kr_results (gpuscan_writeback_results grp kr)
     = fold (writeback_store (kr_nitems kr)) (zip grp (stairlike_offsets 0 ?bin)) (kr_results kr)"
    by (simp add: gpuscan_writeback_results_def arithmetic_stairlike_add_def Let_def)
  have b': "kr_nitems kr + 0 + qualifying grp < 2 ^ 32" using b by simp
  note wf = writeback_fold [OF b' res]
  show "kr_nitems (gpuscan_writeback_results grp kr) = kr_nitems kr + qualifying grp"
    using b by (simp add: gpuscan_writeback_results_def arithmetic_stairlike_add_def Let_def tot cl_uint_add_def)
  show "kr_nrooms (gpuscan_writeback_results grp kr) = kr_nrooms kr"
    by (simp add: gpuscan_writeback_results_def arithmetic_stairlike_add_def Let_def)
  show "kr_nrels (gpuscan_writeback_results grp kr) = kr_nrels kr"
    by (simp add: gpuscan_writeback_results_def arithmetic_stairlike_add_def Let_def)
  show "\<And>k. k < kr_nitems kr \<or> kr_nitems kr + qualifying grp \<le> k \<Longrightarrow>
           kr_results (gpuscan_writeback_results grp kr) k = kr_results kr k"
    using wf by auto
  show "kr_results (gpuscan_writeback_results grp kr) ` {kr_nitems kr ..< kr_nitems kr + qualifying grp}
           = Some ` signed_rindex ` {t \<in> set grp. snd t \<noteq> 0}"
    using wf by simp
qed

lemma rindex_expected_Cons:
  "rindex_expected (grp # sched) = signed_rindex ` {t \<in> set grp. snd t \<noteq> 0} \<union> rindex_expected sched"
  by (auto simp: rindex_expected_def)

lemma writeback_all_spec:
  "kr_nitems kr + total_qualifying sched < 2 ^ 32 \<Longrightarrow>
   kr_nitems (writeback_all sched kr) = kr_nitems kr + total_qualifying sched \<and>
   kr_nrooms (writeback_all sched kr) = kr_nrooms kr \<and>
   kr_nrels (writeback_all sched kr) = kr_nrels kr \<and>
   (\<forall>k < kr_nitems kr. kr_results (writeback_all sched kr) k = kr_results kr k) \<and>
   kr_results (writeback_all sched kr) ` {kr_nitems kr ..< kr_nitems kr + total_qualifying sched}
       = Some ` rindex_expected sched"
proof (induction sched arbitrary: kr)
  case Nil
  then show ?case by (simp add: writeback_all_def total_qualifying_def rindex_expected_def)
next
  case (Cons grp sched)
  define kr1 where "kr1 = gpuscan_writeback_results grp kr"
  define n where "n = kr_nitems kr"
  define q where "q = qualifying grp"
  define r where "r = total_qualifying sched"
  have tq: "total_qualifying (grp # sched) = q + r"
    by (simp add: total_qualifying_def q_def r_def)
  have b: "n + q < 2 ^ 32" using Cons.prems tq by (simp add: n_def)
  note g = writeback_group [OF b [unfolded n_def q_def], folded kr1_def n_def q_def]
  have b1: "kr_nitems kr1 + total_qualifying sched < 2 ^ 32"
    using Cons.prems tq g(1) by (simp add: r_def n_def)
  note ih = Cons.IH [OF b1, folded r_def, unfolded g(1,2,3)]
  define kr' where "kr' = writeback_all sched kr1"
  have run: "writeback_all (grp # sched) kr = kr'"
    by (simp add: writeback_all_def kr1_def kr'_def)
  from ih have i1: "kr_nitems kr' = n + q + r" and i2: "kr_nrooms kr' = kr_nrooms kr"
    and i3: "kr_nrels kr' = kr_nrels kr"
    and i4: "\<And>k. k < n + q \<Longrightarrow> kr_results kr' k = kr_results kr1 k"
    and i5: "kr_results kr' ` {n + q ..< n + q + r} = Some ` rindex_expected sched"
    unfolding kr'_def by blast+
  have low: "\<forall>k < n. kr_results kr' k = kr_results kr k"
    using i4 g(4) by simp
  have mid: "kr_results kr' ` {n ..< n + q} = Some ` signed_rindex ` {t \<in> set grp. snd t \<noteq> 0}"
  proof -
    have "kr_results kr' ` {n ..< n + q} = kr_results kr1 ` {n ..< n + q}"
      by (rule image_cong) (auto simp: i4)
    then show ?thesis using g(5) by simp
  qed
  have split: "{n ..< n + (q + r)} = {n ..< n + q} \<union> {n + q ..< n + q + r}"
    by auto
  have img: "kr_results kr' ` {n ..< n + (q + r)} = Some ` rindex_expected (grp # sched)"
    unfolding split image_Un mid i5 rindex_expected_Cons by simp
  show ?case
    unfolding run tq using i1 i2 i3 low img by (simp add: n_def add.assoc)
qed

lemma writeback_all_nitems:
  "kr_nitems kr < 2 ^ 32 \<Longrightarrow>
   kr_nitems (writeback_all sched kr) = (kr_nitems kr + total_qualifying sched) mod 2 ^ 32"
proof (induction sched arbitrary: kr)
  case Nil
  then show ?case by (simp add: writeback_all_def total_qualifying_def)
next
  case (Cons grp sched)
  define kr1 where "kr1 = gpuscan_writeback_results grp kr"
  have n1: "kr_nitems kr1 = (kr_nitems kr + qualifying grp) mod 2 ^ 32"
    by (simp add: kr1_def gpuscan_writeback_results_def arithmetic_stairlike_add_def Let_def
        stairlike_total_sum sum_list_binary cl_uint_add_def mod_add_right_eq)
  then have "kr_nitems kr1 < 2 ^ 32" by simp
  from Cons.IH [OF this] show ?case
    unfolding n1 by (simp add: writeback_all_def kr1_def total_qualifying_def mod_add_left_eq add.assoc)
qed

lemma recorded_of_image:
  assumes "kr_nitems kr \<le> kr_nrels kr * kr_nrooms kr"
    and "kr_results kr ` {0 ..< kr_nitems kr} = Some ` E"
  shows "rindex_recorded kr = E"
proof -
  have "rindex_recorded kr = {v. \<exists>k. k < kr_nitems kr \<and> kr_results kr k = Some v}"
    using assms(1) unfolding rindex_recorded_def by (intro Collect_cong) (metis less_le_trans)
  also have "\<dots> = {v. Some v \<in> kr_results kr ` {0 ..< kr_nitems kr}}"
    by (auto simp: image_iff) (metis atLeastLessThan_iff zero_le)
  also have "\<dots> = E" unfolding assms(2) by auto
  finally show ?thesis .
qed

lemma writeback_all_recorded:
  assumes "kr_nrels kr = 1" "kr_nitems kr = 0"
    and "total_qualifying sched \<le> kr_nrooms kr" "kr_nrooms kr < 2 ^ 32"
  shows "rindex_recorded (writeback_all sched kr) = rindex_expected sched"
proof -
  have b: "kr_nitems kr + total_qualifying sched < 2 ^ 32" using assms by simp
  note s = writeback_all_spec [OF b, unfolded assms(2)]
  show ?thesis
    by (rule recorded_of_image) (use s assms in simp_all)
qed

lemma total_qualifying_mset:
  "mset sched1 = mset sched2 \<Longrightarrow> total_qualifying sched1 = total_qualifying sched2"
proof -
  assume "mset sched1 = mset sched2"
  then have "mset (map qualifying sched1) = mset (map qualifying sched2)"
    by (metis mset_map)
  then have "sum_mset (mset (map qualifying sched1)) = sum_mset (mset (map qualifying sched2))"
    by (rule arg_cong)
  then show ?thesis unfolding total_qualifying_def sum_mset_sum_list .
qed

lemma rindex_expected_mset:
  "mset sched1 = mset sched2 \<Longrightarrow> rindex_expected sched1 = rindex_expected sched2"
proof -
  assume "mset sched1 = mset sched2"
  then have "set sched1 = set sched2" by (rule mset_eq_setD)
  then show ?thesis by (simp add: rindex_expected_def)
qed

text \<open>
  Claim C2, as amended. The buffer starts with \<^verbatim>\<open>nitems = 0\<close> and the number of
  pass or recheck rows does not exceed \<^verbatim>\<open>nrooms\<close>. After every group of the
  schedule has run \<^verbatim>\<open>gpuscan_writeback_results\<close>, the values recorded in the
  declared array are exactly the signed 1-based indices of the rows whose
  result is not zero, positive for \<open>result > 0\<close> and negative for
  \<open>result < 0\<close>; with one thread per row, a row whose result is zero is
  recorded under neither sign.
\<close>

theorem writeback_results_recorded:
  assumes "kr_nrels kr = 1" and "kr_nitems kr = 0"
    and "total_qualifying sched \<le> kr_nrooms kr" and "kr_nrooms kr < 2 ^ 32"
  shows "rindex_recorded (writeback_all sched kr) = rindex_expected sched \<and>
         (distinct (map fst (concat sched)) \<longrightarrow>
            (\<forall>t \<in> set (concat sched). snd t = 0 \<longrightarrow>
               int (fst t + 1) \<notin> rindex_recorded (writeback_all sched kr) \<and>
               - int (fst t + 1) \<notin> rindex_recorded (writeback_all sched kr)))"
proof -
  have eq: "rindex_recorded (writeback_all sched kr) = rindex_expected sched"
    using assms by (rule writeback_all_recorded)
  have "int (fst t + 1) \<notin> rindex_expected sched \<and> - int (fst t + 1) \<notin> rindex_expected sched"
    if d: "distinct (map fst (concat sched))" and t: "t \<in> set (concat sched)" and z: "snd t = 0" for t
  proof -
    have "u = t" if "u \<in> set (concat sched)" and "fst u = fst t" for u
      using that d t by (metis eq_key_imp_eq_value prod.collapse)
    then have ne: "\<And>u. u \<in> set (concat sched) \<Longrightarrow> snd u \<noteq> 0 \<Longrightarrow> fst u \<noteq> fst t"
      using z by auto
    have "v \<noteq> int (fst t + 1) \<and> v \<noteq> - int (fst t + 1)" if "v \<in> rindex_expected sched" for v
    proof -
      from that obtain u where u: "u \<in> set (concat sched)" "snd u \<noteq> 0" "v = signed_rindex u"
        unfolding rindex_expected_def by auto
      have "\<bar>v\<bar> = int (fst u + 1)"
        unfolding u(3) by (cases u) (simp add: signed_rindex_def)
      moreover have "fst u \<noteq> fst t" using ne u by blast
      ultimately show ?thesis by auto
    qed
    then show ?thesis by blast
  qed
  then show ?thesis unfolding eq by blast
qed

theorem writeback_results_recorded_witness:
  "rindex_recorded (writeback_all scenario_A (resultbuf_init 8)) = {2, 4, 5, 8} \<and>
   kr_nitems (writeback_all scenario_A (resultbuf_init 8)) = 4"
proof -
  have e: "rindex_expected scenario_A = {2, 4, 5, 8}"
    by (simp add: rindex_expected_def scenario_A_def signed_rindex_def)
  have "rindex_recorded (writeback_all scenario_A (resultbuf_init 8)) = rindex_expected scenario_A"
    using writeback_results_recorded [of "resultbuf_init 8" scenario_A]
    by (simp add: resultbuf_init_def total_qualifying_def qualifying_def scenario_A_def)
  moreover have "kr_nitems (writeback_all scenario_A (resultbuf_init 8)) = 4"
    by (simp add: writeback_all_def gpuscan_writeback_results_def arithmetic_stairlike_add_def
        scenario_A_def resultbuf_init_def cl_uint_add_def)
  ultimately show ?thesis using e by simp
qed

lemma overflow_run:
  "writeback_all [[(0, 1), (1, 1)]] (resultbuf_init 1)
     = \<lparr> kr_nrels = 1, kr_nitems = 2, kr_nrooms = 1, kr_results = [0 \<mapsto> 1, 1 \<mapsto> 2] \<rparr>"
  by (simp add: writeback_all_def gpuscan_writeback_results_def arithmetic_stairlike_add_def
        resultbuf_init_def cl_uint_add_def writeback_store_def)

text \<open>
  Claim C2 as stated fails when more rows qualify than the buffer has rooms:
  with one room and two passing rows in a group, row 2 is stored to
  \<^verbatim>\<open>results[1]\<close>, behind the declared array, and is not among the recorded
  indices.
\<close>

theorem writeback_results_recorded_counterexample:
  "rindex_recorded (writeback_all [[(0, 1), (1, 1)]] (resultbuf_init 1))
     \<noteq> rindex_expected [[(0, 1), (1, 1)]]"
proof -
  have "(2::int) \<in> rindex_expected [[(0, 1), (1, 1)]]"
    by (simp add: rindex_expected_def signed_rindex_def)
  moreover have "(2::int) \<notin> rindex_recorded (writeback_all [[(0, 1), (1, 1)]] (resultbuf_init 1))"
    unfolding overflow_run by (simp add: rindex_recorded_def)
  ultimately show ?thesis by metis
qed

lemma writeback_overflow:
  assumes b: "kr_nitems kr + qualifying grp < 2 ^ 32"
    and over: "kr_nrooms kr < kr_nitems kr + qualifying grp"
    and pos: "0 < qualifying grp"
  shows "\<exists>k t. kr_nrooms kr \<le> k \<and> t \<in> set grp \<and> snd t \<noteq> 0 \<and>
           kr_results (gpuscan_writeback_results grp kr) k = Some (signed_rindex t)"
proof -
  define k where "k = kr_nitems kr + qualifying grp - 1"
  have kin: "k \<in> {kr_nitems kr ..< kr_nitems kr + qualifying grp}"
    using pos by (simp add: k_def)
  then have "kr_results (gpuscan_writeback_results grp kr) k
      \<in> kr_results (gpuscan_writeback_results grp kr) ` {kr_nitems kr ..< kr_nitems kr + qualifying grp}"
    by (rule imageI)
  then have "kr_results (gpuscan_writeback_results grp kr) k \<in> Some ` signed_rindex ` {t \<in> set grp. snd t \<noteq> 0}"
    unfolding writeback_group(5) [OF b] .
  then obtain t where "t \<in> set grp" "snd t \<noteq> 0"
    "kr_results (gpuscan_writeback_results grp kr) k = Some (signed_rindex t)"
    by auto
  moreover have "kr_nrooms kr \<le> k" using over by (simp add: k_def)
  ultimately show ?thesis by blast
qed

text \<open>
  Claim C10. \<^verbatim>\<open>gpuscan_writeback_results\<close> never reads \<^verbatim>\<open>nrooms\<close>: it computes
  the same counter and the same stores whatever the capacity is. Hence a
  group whose reservation passes \<^verbatim>\<open>nrooms\<close> leaves \<^verbatim>\<open>nitems\<close> above
  \<^verbatim>\<open>nrooms\<close> and stores a qualifying thread's signed row index to a cell at
  or beyond \<^verbatim>\<open>nrooms\<close>; and there is such an input.
\<close>

theorem writeback_results_unchecked:
  "gpuscan_writeback_results grp (kr\<lparr>kr_nrooms := n\<rparr>)
     = (gpuscan_writeback_results grp kr)\<lparr>kr_nrooms := n\<rparr> \<and>
   (kr_nitems kr + qualifying grp < 2 ^ 32 \<longrightarrow> kr_nrooms kr < kr_nitems kr + qualifying grp \<longrightarrow>
    0 < qualifying grp \<longrightarrow>
      kr_nrooms (gpuscan_writeback_results grp kr) < kr_nitems (gpuscan_writeback_results grp kr) \<and>
      (\<exists>k t. kr_nrooms kr \<le> k \<and> t \<in> set grp \<and> snd t \<noteq> 0 \<and>
           kr_results (gpuscan_writeback_results grp kr) k = Some (signed_rindex t))) \<and>
   (\<exists>grp0 kr0. kr_nitems kr0 = 0 \<and> kr_nrooms kr0 < qualifying grp0 \<and>
      kr_nrooms kr0 < kr_nitems (gpuscan_writeback_results grp0 kr0) \<and>
      (\<exists>k. kr_nrooms kr0 \<le> k \<and> kr_results kr0 k = None \<and>
           kr_results (gpuscan_writeback_results grp0 kr0) k \<noteq> None))"
proof (intro conjI impI)
  show "gpuscan_writeback_results grp (kr\<lparr>kr_nrooms := n\<rparr>)
     = (gpuscan_writeback_results grp kr)\<lparr>kr_nrooms := n\<rparr>"
    by (simp add: gpuscan_writeback_results_def Let_def split: prod.splits)
next
  assume "kr_nitems kr + qualifying grp < 2 ^ 32" "kr_nrooms kr < kr_nitems kr + qualifying grp"
  then show "kr_nrooms (gpuscan_writeback_results grp kr) < kr_nitems (gpuscan_writeback_results grp kr)"
    by (simp add: writeback_group)
next
  assume "kr_nitems kr + qualifying grp < 2 ^ 32" "kr_nrooms kr < kr_nitems kr + qualifying grp"
    "0 < qualifying grp"
  then show "\<exists>k t. kr_nrooms kr \<le> k \<and> t \<in> set grp \<and> snd t \<noteq> 0 \<and>
           kr_results (gpuscan_writeback_results grp kr) k = Some (signed_rindex t)"
    by (rule writeback_overflow)
next
  have "kr_nitems (resultbuf_init 1) = 0 \<and> kr_nrooms (resultbuf_init 1) < qualifying [(0, 1), (1, -1)] \<and>
      kr_nrooms (resultbuf_init 1) < kr_nitems (gpuscan_writeback_results [(0, 1), (1, -1)] (resultbuf_init 1)) \<and>
      (kr_nrooms (resultbuf_init 1) \<le> 1 \<and> kr_results (resultbuf_init 1) 1 = None \<and>
           kr_results (gpuscan_writeback_results [(0, 1), (1, -1)] (resultbuf_init 1)) 1 \<noteq> None)"
    by (simp add: gpuscan_writeback_results_def arithmetic_stairlike_add_def
        resultbuf_init_def cl_uint_add_def writeback_store_def qualifying_def)
  then show "\<exists>grp0 kr0. kr_nitems kr0 = 0 \<and> kr_nrooms kr0 < qualifying grp0 \<and>
      kr_nrooms kr0 < kr_nitems (gpuscan_writeback_results grp0 kr0) \<and>
      (\<exists>k. kr_nrooms kr0 \<le> k \<and> kr_results kr0 k = None \<and>
           kr_results (gpuscan_writeback_results grp0 kr0) k \<noteq> None)"
    by blast
qed

theorem writeback_results_unchecked_witness:
  "kr_nitems (gpuscan_writeback_results [(0, 1), (1, -1)] (resultbuf_init 1)) = 2 \<and>
   kr_nrooms (gpuscan_writeback_results [(0, 1), (1, -1)] (resultbuf_init 1)) = 1 \<and>
   kr_results (gpuscan_writeback_results [(0, 1), (1, -1)] (resultbuf_init 1)) 1 = Some (- 2) \<and>
   (\<exists>k t. kr_nrooms (resultbuf_init 1) \<le> k \<and> t \<in> set [(0, 1), (1, -1)] \<and> snd t \<noteq> 0 \<and>
        kr_results (gpuscan_writeback_results [(0, 1), (1, -1)] (resultbuf_init 1)) k
          = Some (signed_rindex t))"
proof -
  have h: "kr_nitems (resultbuf_init 1) + qualifying [(0, 1), (1, -1)] < 2 ^ 32"
    "kr_nrooms (resultbuf_init 1) < kr_nitems (resultbuf_init 1) + qualifying [(0, 1), (1, -1)]"
    "0 < qualifying [(0, 1), (1, -1)]"
    by (simp_all add: resultbuf_init_def qualifying_def)
  have v: "kr_nitems (gpuscan_writeback_results [(0, 1), (1, -1)] (resultbuf_init 1)) = 2 \<and>
   kr_nrooms (gpuscan_writeback_results [(0, 1), (1, -1)] (resultbuf_init 1)) = 1 \<and>
   kr_results (gpuscan_writeback_results [(0, 1), (1, -1)] (resultbuf_init 1)) 1 = Some (- 2)"
    by (simp add: gpuscan_writeback_results_def arithmetic_stairlike_add_def
        resultbuf_init_def cl_uint_add_def writeback_store_def)
  show ?thesis
    using writeback_results_unchecked [where grp = "[(0, 1), (1, -1)]" and kr = "resultbuf_init 1" and n = 1] h v by blast
qed

text \<open>
  Claim C9 as stated fails when more rows qualify than the buffer has rooms:
  with one room and two groups of one passing row each, the group that runs
  first gets the only declared cell, so the recorded set depends on the order.
\<close>

theorem writeback_order_independent_counterexample:
  "rindex_recorded (writeback_all [[(0, 1)], [(1, 1)]] (resultbuf_init 1))
     \<noteq> rindex_recorded (writeback_all [[(1, 1)], [(0, 1)]] (resultbuf_init 1))"
proof -
  have a: "writeback_all [[(0, 1)], [(1, 1)]] (resultbuf_init 1)
     = \<lparr> kr_nrels = 1, kr_nitems = 2, kr_nrooms = 1, kr_results = [0 \<mapsto> 1, 1 \<mapsto> 2] \<rparr>"
    by (simp add: writeback_all_def gpuscan_writeback_results_def arithmetic_stairlike_add_def
        resultbuf_init_def cl_uint_add_def writeback_store_def)
  have b: "writeback_all [[(1, 1)], [(0, 1)]] (resultbuf_init 1)
     = \<lparr> kr_nrels = 1, kr_nitems = 2, kr_nrooms = 1, kr_results = [0 \<mapsto> 2, 1 \<mapsto> 1] \<rparr>"
    by (simp add: writeback_all_def gpuscan_writeback_results_def arithmetic_stairlike_add_def
        resultbuf_init_def cl_uint_add_def writeback_store_def)
  have "(1::int) \<in> rindex_recorded (writeback_all [[(0, 1)], [(1, 1)]] (resultbuf_init 1))"
    unfolding a by (simp add: rindex_recorded_def)
  moreover have "(1::int) \<notin> rindex_recorded (writeback_all [[(1, 1)], [(0, 1)]] (resultbuf_init 1))"
    unfolding b by (simp add: rindex_recorded_def)
  ultimately show ?thesis by metis
qed

subsection \<open>The projectors' counters and the orchestrator\<close>

lemma cl_uint_add_0: "cl_uint_add 0 0 = 0" by (simp add: cl_uint_add_def)

lemma stairlike_total_pos_nonempty: "stairlike_total 0 vs > 0 \<Longrightarrow> vs \<noteq> []"
  by (cases vs) auto

lemma writeback_fold_keeps:
  "cell \<noteq> StromError_Success \<Longrightarrow> fold kern_writeback_error_status kcxts cell = cell"
  by (induction kcxts) (auto simp: kern_writeback_error_status_def)

lemma writeback_fold_reports:
  "\<exists>k \<in> set kcxts. e_errcode k \<noteq> StromError_Success \<Longrightarrow>
   fold kern_writeback_error_status kcxts cell \<noteq> StromError_Success"
proof (induction kcxts arbitrary: cell)
  case Nil
  then show ?case by simp
next
  case (Cons k kcxts)
  show ?case
  proof (cases "kern_writeback_error_status k cell = StromError_Success")
    case True
    then have "e_errcode k = StromError_Success"
      by (auto simp: kern_writeback_error_status_def split: if_splits)
    then have "\<exists>k \<in> set kcxts. e_errcode k \<noteq> StromError_Success" using Cons.prems by auto
    from Cons.IH [OF this] show ?thesis by simp
  next
    case False
    then show ?thesis by (simp add: writeback_fold_keeps)
  qed
qed

lemma set_error_nospace: "e_errcode (STROM_SET_ERROR StromError_DataStoreNoSpace kcxt) \<noteq> StromError_Success"
  by (simp add: STROM_SET_ERROR_def)

lemma projection_row_nitems:
  assumes "gpuscan_projection_row L grp kds = (res, kds')"
  shows "kds_nrooms kds' = kds_nrooms kds \<and> kds_format kds' = kds_format kds \<and>
         (kds_nitems kds' = kds_nitems kds \<or> kds_nitems kds' \<le> kds_nrooms kds \<or>
          (grp \<noteq> [] \<and> map fst res = map (\<lambda>(kcxt, t). STROM_SET_ERROR StromError_DataStoreNoSpace kcxt) grp))"
proof -
  define c1 where "c1 = stairlike_total 0 (map (\<lambda>t. if t \<noteq> None then 1 else 0) (map snd grp))"
  show ?thesis
  proof (cases "c1 > 0")
    case False
    then have "c1 = 0" by simp
    then show ?thesis using assms
      by (auto simp: gpuscan_projection_row_def arithmetic_stairlike_add_def Let_def c1_def cl_uint_add_0
          split: if_splits prod.splits)
  next
    case True
    then have ne: "grp \<noteq> []" unfolding c1_def by (cases grp) auto
    show ?thesis using assms True ne
      by (auto simp: gpuscan_projection_row_def arithmetic_stairlike_add_def Let_def c1_def comp_def
          split: if_splits prod.splits)
  qed
qed

lemma projection_slot_nitems:
  assumes "gpuscan_projection_slot deform grp kds = (kcxts, kds')"
  shows "kds_nrooms kds' = kds_nrooms kds \<and> kds_format kds' = kds_format kds \<and>
         (kds_nitems kds' = kds_nitems kds \<or> kds_nitems kds' \<le> kds_nrooms kds \<or>
          (grp \<noteq> [] \<and> kcxts = map (\<lambda>(kcxt, t). STROM_SET_ERROR StromError_DataStoreNoSpace kcxt) grp))"
proof -
  define c1 where "c1 = stairlike_total 0 (map (\<lambda>t. if t \<noteq> None then 1 else 0) (map snd grp))"
  show ?thesis
  proof (cases "c1 > 0")
    case False
    then have "c1 = 0" by simp
    then show ?thesis using assms
      by (auto simp: gpuscan_projection_slot_def arithmetic_stairlike_add_def Let_def c1_def cl_uint_add_0
          split: if_splits prod.splits)
  next
    case True
    then have ne: "grp \<noteq> []" unfolding c1_def by (cases grp) auto
    show ?thesis using assms True ne
      by (auto simp: gpuscan_projection_slot_def arithmetic_stairlike_add_def Let_def c1_def comp_def
          split: if_splits prod.splits)
  qed
qed

lemma gpuscan_qual_nrooms:
  assumes "gpuscan_qual L ev deform kds_src grp (kg, kds) = (kg', kds')"
    and J: "kds_nitems kds \<le> kds_nrooms kds \<or> kg_errcode kg \<noteq> StromError_Success"
  shows "kds_nitems kds' \<le> kds_nrooms kds' \<or> kg_errcode kg' \<noteq> StromError_Success"
proof -
  define threads where "threads = map (qual_tupitem ev kds_src) grp"
  define out where "out = (if kds_format kds = KDS_FORMAT_ROW
                then (let (res, k) = gpuscan_projection_row L threads kds in (map fst res, k))
                else gpuscan_projection_slot deform threads kds)"
  obtain kcxts kds1 where o: "out = (kcxts, kds1)" by (cases out)
  have kg': "kg_errcode kg' = fold kern_writeback_error_status kcxts (kg_errcode kg)" and k1: "kds' = kds1"
    using assms(1) o unfolding gpuscan_qual_def out_def threads_def
    by (auto simp: Let_def split: prod.splits if_splits)
  have cases: "kds_nrooms kds1 = kds_nrooms kds \<and>
         (kds_nitems kds1 = kds_nitems kds \<or> kds_nitems kds1 \<le> kds_nrooms kds \<or>
          (threads \<noteq> [] \<and> kcxts = map (\<lambda>(kcxt, t). STROM_SET_ERROR StromError_DataStoreNoSpace kcxt) threads))"
  proof (cases "kds_format kds = KDS_FORMAT_ROW")
    case True
    obtain res k where r: "gpuscan_projection_row L threads kds = (res, k)"
      by (cases "gpuscan_projection_row L threads kds")
    then have "kcxts = map fst res" "kds1 = k" using o True by (simp_all add: out_def)
    then show ?thesis using projection_row_nitems [OF r] by simp
  next
    case False
    then have "gpuscan_projection_slot deform threads kds = (kcxts, kds1)"
      using o by (simp add: out_def)
    from projection_slot_nitems [OF this] show ?thesis by simp
  qed
  show ?thesis
  proof (cases "kg_errcode kg = StromError_Success")
    case False
    then show ?thesis by (simp add: kg' writeback_fold_keeps)
  next
    case True
    then have le: "kds_nitems kds \<le> kds_nrooms kds" using J by simp
    from cases consider "kds_nitems kds1 \<le> kds_nrooms kds1"
      | "threads \<noteq> []" "kcxts = map (\<lambda>(kcxt, t). STROM_SET_ERROR StromError_DataStoreNoSpace kcxt) threads"
      using le by auto
    then show ?thesis
    proof cases
      case 1
      then show ?thesis by (simp add: k1)
    next
      case 2
      then obtain th ths where "threads = th # ths" by (cases threads) auto
      then have "\<exists>k \<in> set kcxts. e_errcode k \<noteq> StromError_Success"
        using 2(2) by (cases th) (simp add: set_error_nospace)
      then show ?thesis unfolding kg' by (simp add: writeback_fold_reports)
    qed
  qed
qed

lemma gpuscan_qual_all_nrooms:
  "kds_nitems (snd st) \<le> kds_nrooms (snd st) \<or> kg_errcode (fst st) \<noteq> StromError_Success \<Longrightarrow>
   kds_nitems (snd (gpuscan_qual_all L ev deform kds_src sched st))
     \<le> kds_nrooms (snd (gpuscan_qual_all L ev deform kds_src sched st)) \<or>
   kg_errcode (fst (gpuscan_qual_all L ev deform kds_src sched st)) \<noteq> StromError_Success"
proof (induction sched arbitrary: st)
  case Nil
  then show ?case by (simp add: gpuscan_qual_all_def)
next
  case (Cons grp sched)
  obtain kg kds where st: "st = (kg, kds)" by (cases st)
  obtain kg1 kds1 where s1: "gpuscan_qual L ev deform kds_src grp (kg, kds) = (kg1, kds1)"
    by (cases "gpuscan_qual L ev deform kds_src grp (kg, kds)")
  have "kds_nitems kds1 \<le> kds_nrooms kds1 \<or> kg_errcode kg1 \<noteq> StromError_Success"
    using gpuscan_qual_nrooms [OF s1] Cons.prems by (simp add: st)
  then have "kds_nitems (snd (kg1, kds1)) \<le> kds_nrooms (snd (kg1, kds1)) \<or>
     kg_errcode (fst (kg1, kds1)) \<noteq> StromError_Success" by simp
  from Cons.IH [OF this] show ?case
    by (simp add: gpuscan_qual_all_def st s1)
qed

lemma gpuscan_qual_kresults:
  "kresults (fst (gpuscan_qual L ev deform kds_src grp st)) = kresults (fst st)"
  by (cases st) (simp add: gpuscan_qual_def Let_def split: prod.splits)

lemma gpuscan_qual_all_kresults:
  "kresults (fst (gpuscan_qual_all L ev deform kds_src sched st)) = kresults (fst st)"
  by (induction sched arbitrary: st) (simp_all add: gpuscan_qual_all_def gpuscan_qual_kresults)

lemmas eval_defs = gpuscan_qual_all_def gpuscan_qual_def qual_tupitem_def INIT_KERNEL_CONTEXT_def
  gpuscan_projection_row_def gpuscan_projection_slot_def arithmetic_stairlike_add_def
  cl_uint_add_def cl_uint_sub_def STROM_SET_ERROR_def kern_writeback_error_status_def
  layout0_def tupitem0_def eval_pass_def kds_empty_def gpuscan_init_def scenario_B_src_def
  resultbuf_init_def Let_def

lemma scenario_B_row:
  "gpuscan_qual_all layout0 eval_pass deform0 scenario_B_src [[0, 1, 2, 3]]
     (gpuscan_init 4, kds_empty KDS_FORMAT_ROW 1024 2)
   = (\<lparr> kresults = resultbuf_init 4, kg_errcode = StromError_DataStoreNoSpace \<rparr>,
      (kds_empty KDS_FORMAT_ROW 1024 2)\<lparr> kds_nitems := 4 \<rparr>)"
  by (simp add: eval_defs)

lemma scenario_B_slot:
  "gpuscan_qual_all layout0 eval_pass deform0 scenario_B_src [[0, 1, 2, 3]]
     (gpuscan_init 4, kds_empty KDS_FORMAT_SLOT 1024 2)
   = (\<lparr> kresults = resultbuf_init 4, kg_errcode = StromError_DataStoreNoSpace \<rparr>,
      (kds_empty KDS_FORMAT_SLOT 1024 2)\<lparr> kds_nitems := 4 \<rparr>)"
  by (simp add: eval_defs)

text \<open>
  Claim C1 as stated fails in both formats: with two rooms and four
  qualifying rows in one group, \<^verbatim>\<open>nitems\<close> ends at 4.
\<close>

theorem gpuscan_qual_nitems_nrooms_counterexample:
  "\<not> kds_nitems (snd (gpuscan_qual_all layout0 eval_pass deform0 scenario_B_src [[0, 1, 2, 3]]
        (gpuscan_init 4, kds_empty KDS_FORMAT_ROW 1024 2)))
      \<le> kds_nrooms (snd (gpuscan_qual_all layout0 eval_pass deform0 scenario_B_src [[0, 1, 2, 3]]
        (gpuscan_init 4, kds_empty KDS_FORMAT_ROW 1024 2))) \<and>
   \<not> kds_nitems (snd (gpuscan_qual_all layout0 eval_pass deform0 scenario_B_src [[0, 1, 2, 3]]
        (gpuscan_init 4, kds_empty KDS_FORMAT_SLOT 1024 2)))
      \<le> kds_nrooms (snd (gpuscan_qual_all layout0 eval_pass deform0 scenario_B_src [[0, 1, 2, 3]]
        (gpuscan_init 4, kds_empty KDS_FORMAT_SLOT 1024 2)))"
  unfolding scenario_B_row scenario_B_slot by (simp add: kds_empty_def)

lemma stairlike_offsets_length [simp]: "length (stairlike_offsets acc vs) = length vs"
  by (induction vs arbitrary: acc) auto

lemma projection_row_kcxts:
  assumes "gpuscan_projection_row L grp kds = (res, kds')"
  shows "map fst res = map fst grp \<or>
         map fst res = map (\<lambda>(kcxt, t). STROM_SET_ERROR StromError_DataStoreNoSpace kcxt) grp"
proof -
  have z: "map fst (zip (map fst grp) (map f (zip (map snd grp) (zip (stairlike_offsets a xs) (zip (stairlike_offsets b ys) ys)))))
      = map fst grp" if "length xs = length grp" "length ys = length grp" for f a b xs ys
    using that by (simp add: map_fst_zip)
  show ?thesis using assms
    by (auto simp: gpuscan_projection_row_def arithmetic_stairlike_add_def Let_def comp_def z
          split: if_splits prod.splits)
qed

lemma projection_slot_kcxts:
  assumes "gpuscan_projection_slot deform grp kds = (kcxts, kds')"
  shows "kcxts = map fst grp \<or>
         kcxts = map (\<lambda>(kcxt, t). STROM_SET_ERROR StromError_DataStoreNoSpace kcxt) grp"
  using assms
  by (auto simp: gpuscan_projection_slot_def arithmetic_stairlike_add_def Let_def
          split: if_splits prod.splits)

lemma qual_tupitem_errcode:
  "e_errcode (fst (qual_tupitem ev kds_src g))
     = (if g < length kds_src then qual_error ev kds_src g else StromError_Success)"
  by (simp add: qual_tupitem_def qual_error_def Let_def INIT_KERNEL_CONTEXT_def split: prod.splits)

lemma qual_tupitem_demoted:
  "g < length kds_src \<Longrightarrow> qual_error ev kds_src g \<noteq> StromError_Success \<Longrightarrow>
   snd (qual_tupitem ev kds_src g) = None"
  by (auto simp: qual_tupitem_def qual_error_def Let_def split: prod.splits)

lemma set_error_keeps:
  "e_errcode kcxt \<noteq> StromError_Success \<Longrightarrow> STROM_SET_ERROR c kcxt = kcxt"
  by (simp add: STROM_SET_ERROR_def)

lemma set_error_errcode:
  "e_errcode (STROM_SET_ERROR StromError_DataStoreNoSpace kcxt)
     = (if e_errcode kcxt = StromError_Success then StromError_DataStoreNoSpace else e_errcode kcxt)"
  by (simp add: STROM_SET_ERROR_def)

lemma writeback_fold_range:
  "fold kern_writeback_error_status kcxts cell \<in> insert cell (e_errcode ` set kcxts)"
proof (induction kcxts arbitrary: cell)
  case Nil
  then show ?case by simp
next
  case (Cons k kcxts)
  have "kern_writeback_error_status k cell = cell \<or> kern_writeback_error_status k cell = e_errcode k"
    by (simp add: kern_writeback_error_status_def)
  then show ?case using Cons.IH [of "kern_writeback_error_status k cell"] by auto
qed

text \<open>The contexts with which the threads of a group leave the projector.\<close>

lemma gpuscan_qual_kcxts:
  assumes "gpuscan_qual L ev deform kds_src grp (kg, kds) = (kg', kds')"
  obtains kcxts where "kg_errcode kg' = fold kern_writeback_error_status kcxts (kg_errcode kg)"
    and "kcxts = map (\<lambda>g. fst (qual_tupitem ev kds_src g)) grp \<or>
         kcxts = map (\<lambda>g. STROM_SET_ERROR StromError_DataStoreNoSpace (fst (qual_tupitem ev kds_src g))) grp"
proof -
  define threads where "threads = map (qual_tupitem ev kds_src) grp"
  define out where "out = (if kds_format kds = KDS_FORMAT_ROW
                then (let (res, k) = gpuscan_projection_row L threads kds in (map fst res, k))
                else gpuscan_projection_slot deform threads kds)"
  obtain kcxts kds1 where o: "out = (kcxts, kds1)" by (cases out)
  have kg': "kg_errcode kg' = fold kern_writeback_error_status kcxts (kg_errcode kg)"
    using assms(1) o unfolding gpuscan_qual_def out_def threads_def
    by (auto simp: Let_def split: prod.splits if_splits)
  have "kcxts = map fst threads \<or>
        kcxts = map (\<lambda>(kcxt, t). STROM_SET_ERROR StromError_DataStoreNoSpace kcxt) threads"
  proof (cases "kds_format kds = KDS_FORMAT_ROW")
    case True
    obtain res k where r: "gpuscan_projection_row L threads kds = (res, k)"
      by (cases "gpuscan_projection_row L threads kds")
    then have "kcxts = map fst res" using o True by (simp_all add: out_def)
    then show ?thesis using projection_row_kcxts [OF r] by simp
  next
    case False
    then have "gpuscan_projection_slot deform threads kds = (kcxts, kds1)"
      using o by (simp add: out_def)
    from projection_slot_kcxts [OF this] show ?thesis .
  qed
  then have "kcxts = map (\<lambda>g. fst (qual_tupitem ev kds_src g)) grp \<or>
         kcxts = map (\<lambda>g. STROM_SET_ERROR StromError_DataStoreNoSpace (fst (qual_tupitem ev kds_src g))) grp"
    by (auto simp: threads_def comp_def case_prod_unfold)
  with kg' that show ?thesis by blast
qed

lemma gpuscan_qual_reports:
  assumes "gpuscan_qual L ev deform kds_src grp (kg, kds) = (kg', kds')"
    and "kg_errcode kg \<noteq> StromError_Success \<or>
         (\<exists>g \<in> set grp. g < length kds_src \<and> qual_error ev kds_src g \<noteq> StromError_Success)"
  shows "kg_errcode kg' \<noteq> StromError_Success"
proof -
  from gpuscan_qual_kcxts [OF assms(1)] obtain kcxts
    where f: "kg_errcode kg' = fold kern_writeback_error_status kcxts (kg_errcode kg)"
    and k: "kcxts = map (\<lambda>g. fst (qual_tupitem ev kds_src g)) grp \<or>
         kcxts = map (\<lambda>g. STROM_SET_ERROR StromError_DataStoreNoSpace (fst (qual_tupitem ev kds_src g))) grp"
    by blast
  show ?thesis
  proof (cases "kg_errcode kg = StromError_Success")
    case False
    then show ?thesis by (simp add: f writeback_fold_keeps)
  next
    case True
    then obtain g where g: "g \<in> set grp" "g < length kds_src" "qual_error ev kds_src g \<noteq> StromError_Success"
      using assms(2) by blast
    then have e: "e_errcode (fst (qual_tupitem ev kds_src g)) \<noteq> StromError_Success"
      by (simp add: qual_tupitem_errcode)
    have "\<exists>k \<in> set kcxts. e_errcode k \<noteq> StromError_Success"
      using k
    proof
      assume "kcxts = map (\<lambda>g. fst (qual_tupitem ev kds_src g)) grp"
      then show ?thesis using g(1) e by auto
    next
      assume "kcxts = map (\<lambda>g. STROM_SET_ERROR StromError_DataStoreNoSpace (fst (qual_tupitem ev kds_src g))) grp"
      then show ?thesis using g(1) by (auto simp: set_error_nospace)
    qed
    then show ?thesis unfolding f by (rule writeback_fold_reports)
  qed
qed

lemma gpuscan_qual_range:
  assumes "gpuscan_qual L ev deform kds_src grp (kg, kds) = (kg', kds')"
  shows "kg_errcode kg' \<in> {kg_errcode kg, StromError_DataStoreNoSpace}
           \<union> {qual_error ev kds_src g | g. g \<in> set grp \<and> g < length kds_src}"
proof -
  from gpuscan_qual_kcxts [OF assms(1)] obtain kcxts
    where f: "kg_errcode kg' = fold kern_writeback_error_status kcxts (kg_errcode kg)"
    and k: "kcxts = map (\<lambda>g. fst (qual_tupitem ev kds_src g)) grp \<or>
         kcxts = map (\<lambda>g. STROM_SET_ERROR StromError_DataStoreNoSpace (fst (qual_tupitem ev kds_src g))) grp"
    by blast
  let ?R = "{kg_errcode kg, StromError_DataStoreNoSpace}
           \<union> {qual_error ev kds_src g | g. g \<in> set grp \<and> g < length kds_src}"
  have "kg_errcode kg' = kg_errcode kg \<or> (kg_errcode kg' \<in> e_errcode ` set kcxts \<and> kg_errcode kg' \<noteq> StromError_Success)"
  proof (cases "kg_errcode kg' = kg_errcode kg")
    case True then show ?thesis by simp
  next
    case False
    then have "kg_errcode kg = StromError_Success"
      using f writeback_fold_keeps by metis
    moreover have "kg_errcode kg' \<in> insert (kg_errcode kg) (e_errcode ` set kcxts)"
      unfolding f by (rule writeback_fold_range)
    ultimately show ?thesis using False by auto
  qed
  moreover have "e \<in> ?R" if "e \<in> e_errcode ` set kcxts" "e \<noteq> StromError_Success" for e
  proof -
    from that(1) k obtain g where g: "g \<in> set grp"
      and "e = e_errcode (fst (qual_tupitem ev kds_src g)) \<or>
           e = e_errcode (STROM_SET_ERROR StromError_DataStoreNoSpace (fst (qual_tupitem ev kds_src g)))"
      by auto
    then have "e = e_errcode (fst (qual_tupitem ev kds_src g)) \<or> e = StromError_DataStoreNoSpace"
      by (auto simp: set_error_errcode split: if_splits)
    then show ?thesis using that(2) g
      by (auto simp: qual_tupitem_errcode split: if_splits)
  qed
  ultimately show ?thesis by blast
qed

lemma gpuscan_qual_all_reports:
  "kg_errcode (fst st) \<noteq> StromError_Success \<or>
     (\<exists>g \<in> set (concat sched). g < length kds_src \<and> qual_error ev kds_src g \<noteq> StromError_Success) \<Longrightarrow>
   kg_errcode (fst (gpuscan_qual_all L ev deform kds_src sched st)) \<noteq> StromError_Success"
proof (induction sched arbitrary: st)
  case Nil
  then show ?case by (simp add: gpuscan_qual_all_def)
next
  case (Cons grp sched)
  obtain kg kds where st: "st = (kg, kds)" by (cases st)
  obtain kg1 kds1 where s1: "gpuscan_qual L ev deform kds_src grp (kg, kds) = (kg1, kds1)"
    by (cases "gpuscan_qual L ev deform kds_src grp (kg, kds)")
  have "kg_errcode (fst (kg1, kds1)) \<noteq> StromError_Success \<or>
     (\<exists>g \<in> set (concat sched). g < length kds_src \<and> qual_error ev kds_src g \<noteq> StromError_Success)"
    using Cons.prems gpuscan_qual_reports [OF s1] by (auto simp: st)
  from Cons.IH [OF this] show ?case
    by (simp add: gpuscan_qual_all_def st s1)
qed

lemma gpuscan_qual_all_range:
  "kg_errcode (fst (gpuscan_qual_all L ev deform kds_src sched st))
     \<in> {kg_errcode (fst st), StromError_DataStoreNoSpace}
           \<union> {qual_error ev kds_src g | g. g \<in> set (concat sched) \<and> g < length kds_src}"
proof (induction sched arbitrary: st)
  case Nil
  then show ?case by (simp add: gpuscan_qual_all_def)
next
  case (Cons grp sched)
  obtain kg kds where st: "st = (kg, kds)" by (cases st)
  obtain kg1 kds1 where s1: "gpuscan_qual L ev deform kds_src grp (kg, kds) = (kg1, kds1)"
    by (cases "gpuscan_qual L ev deform kds_src grp (kg, kds)")
  have run: "gpuscan_qual_all L ev deform kds_src (grp # sched) st
     = gpuscan_qual_all L ev deform kds_src sched (kg1, kds1)"
    by (simp add: gpuscan_qual_all_def st s1)
  have a: "kg_errcode (fst (gpuscan_qual_all L ev deform kds_src sched (kg1, kds1)))
     \<in> {kg_errcode kg1, StromError_DataStoreNoSpace}
           \<union> {qual_error ev kds_src g | g. g \<in> set (concat sched) \<and> g < length kds_src}"
    using Cons.IH [of "(kg1, kds1)"] by simp
  have b: "kg_errcode kg1 \<in> {kg_errcode kg, StromError_DataStoreNoSpace}
           \<union> {qual_error ev kds_src g | g. g \<in> set grp \<and> g < length kds_src}"
    by (rule gpuscan_qual_range [OF s1])
  show ?case unfolding run using a b by (auto simp: st)
qed

lemmas eval_defs2 = eval_defs eval_len_def tupitem1_def qual_error_def

lemma predicate_error_run:
  "fst (gpuscan_qual_all layout0 eval_len deform0 [tupitem0 10, tupitem1 20] [[0, 1]]
     (gpuscan_init 2, kds_empty KDS_FORMAT_SLOT 1024 2))
   = \<lparr> kresults = resultbuf_init 2, kg_errcode = StromError_Other 7 \<rparr>"
  by (simp add: eval_defs2 slot_store_def)

lemma stairlike_total_four: "stairlike_total 0 [1, 1, 1, 1] = 4"
  by (simp add: cl_uint_add_def)

text \<open>
  Claim C4, as amended. A row-format destination with \<^verbatim>\<open>nrooms = 2\<close> and a
  group of four threads in range whose rows all qualify: the run of the group
  ends with data-store-no-space in the error cell, \<^verbatim>\<open>nitems\<close> advanced by the
  four reserved rows (the reservation is not taken back), and nothing else of
  the destination changed: no tuple byte, no index-array entry, no usage.
\<close>

theorem projection_row_scenario_B:
  assumes grp: "grp = [g0, g1, g2, g3]"
    and pass: "\<forall>g \<in> set grp. g < length kds_src \<and> fst (ev INIT_KERNEL_CONTEXT (kds_src ! g)) \<and>
                 qual_error ev kds_src g = StromError_Success"
    and fmt: "kds_format kds = KDS_FORMAT_ROW" and rooms: "kds_nrooms kds = 2"
    and n0: "kds_nitems kds + 4 < 2 ^ 32" and cell: "kg_errcode kg = StromError_Success"
  shows "gpuscan_qual L ev deform kds_src grp (kg, kds)
           = (kg\<lparr> kg_errcode := StromError_DataStoreNoSpace \<rparr>,
              kds\<lparr> kds_nitems := kds_nitems kds + 4 \<rparr>)"
proof -
  define th where "th = qual_tupitem ev kds_src"
  have th: "snd (th g) \<noteq> None \<and> e_errcode (fst (th g)) = StromError_Success" if "g \<in> set grp" for g
    using pass that unfolding th_def
    by (auto simp: qual_tupitem_def qual_error_def Let_def split: prod.splits)
  have bins: "map (\<lambda>t. if t \<noteq> None then 1 else 0) (map snd (map th grp)) = [1, 1, 1, 1::nat]"
    using th by (simp add: grp)
  have add: "cl_uint_add (kds_nitems kds) 4 = kds_nitems kds + 4"
    using n0 by (simp add: cl_uint_add_def)
  have over: "kds_nrooms kds < kds_nitems kds + 4" using rooms by simp
  have row: "gpuscan_projection_row L (map th grp) kds
     = (map (\<lambda>(kcxt, t). (STROM_SET_ERROR StromError_DataStoreNoSpace kcxt, None)) (map th grp),
        kds\<lparr> kds_nitems := kds_nitems kds + 4 \<rparr>)"
    unfolding gpuscan_projection_row_def arithmetic_stairlike_add_def Let_def bins stairlike_total_four
    using add over by simp
  have errs: "map fst (map (\<lambda>(kcxt, t). (STROM_SET_ERROR StromError_DataStoreNoSpace kcxt, None)) (map th grp))
     = replicate 4 \<lparr> e_errcode = StromError_DataStoreNoSpace \<rparr>"
    using th by (simp add: grp STROM_SET_ERROR_def case_prod_unfold numeral_eq_Suc)
  have wb: "fold kern_writeback_error_status (replicate 4 \<lparr> e_errcode = StromError_DataStoreNoSpace \<rparr>)
              StromError_Success = StromError_DataStoreNoSpace"
    by (simp add: kern_writeback_error_status_def numeral_eq_Suc)
  have final: "fold kern_writeback_error_status
      (map fst (map (\<lambda>(kcxt, t). (STROM_SET_ERROR StromError_DataStoreNoSpace kcxt, None)) (map th grp)))
      StromError_Success = StromError_DataStoreNoSpace"
    unfolding errs wb ..
  show ?thesis
    unfolding gpuscan_qual_def th_def [symmetric]
    by (simp add: fmt row final cell Let_def del: map_map)
qed

theorem projection_row_scenario_B_witness:
  "gpuscan_qual layout0 eval_pass deform0 scenario_B_src [0, 1, 2, 3]
     (gpuscan_init 4, kds_empty KDS_FORMAT_ROW 1024 2)
   = ((gpuscan_init 4)\<lparr> kg_errcode := StromError_DataStoreNoSpace \<rparr>,
      (kds_empty KDS_FORMAT_ROW 1024 2)\<lparr> kds_nitems := 4 \<rparr>)"
proof -
  have "\<forall>g \<in> set [0, 1, 2, 3::nat]. g < length scenario_B_src \<and>
          fst (eval_pass INIT_KERNEL_CONTEXT (scenario_B_src ! g)) \<and>
          qual_error eval_pass scenario_B_src g = StromError_Success"
    by (simp add: scenario_B_src_def eval_pass_def qual_error_def INIT_KERNEL_CONTEXT_def)
  from projection_row_scenario_B [OF refl this, of "kds_empty KDS_FORMAT_ROW 1024 2" "gpuscan_init 4" layout0 deform0]
  show ?thesis by (simp add: kds_empty_def gpuscan_init_def)
qed

text \<open>
  Claim C4 as stated has \<^verbatim>\<open>nitems\<close> left at most 2; it ends at 4.
\<close>

theorem projection_row_scenario_B_counterexample:
  "\<not> kds_nitems (snd (gpuscan_qual layout0 eval_pass deform0 scenario_B_src [0, 1, 2, 3]
        (gpuscan_init 4, kds_empty KDS_FORMAT_ROW 1024 2))) \<le> 2"
  by (simp add: eval_defs)

text \<open>
  Claim C6, as amended. \<^verbatim>\<open>gpuscan_qual\<close> hands each row's outcome to the
  projector of the destination's format only: it never calls
  \<^verbatim>\<open>gpuscan_writeback_results\<close>, and the result buffer is after the run of a
  group, and after a whole invocation, what it was before.
\<close>

theorem gpuscan_qual_no_writeback:
  "kresults (fst (gpuscan_qual L ev deform kds_src grp st)) = kresults (fst st) \<and>
   kresults (fst (gpuscan_qual_all L ev deform kds_src sched st)) = kresults (fst st)"
  by (simp add: gpuscan_qual_kresults gpuscan_qual_all_kresults)

text \<open>
  Claim C6 as stated fails: one row that passes is projected into the
  destination, and the result buffer still has \<^verbatim>\<open>nitems = 0\<close> and no index
  recorded.
\<close>

theorem gpuscan_qual_no_writeback_counterexample:
  "kds_nitems (snd (gpuscan_qual_all layout0 eval_pass deform0 [tupitem0 10] [[0]]
        (gpuscan_init 1, kds_empty KDS_FORMAT_SLOT 1024 1))) = 1 \<and>
   kr_nitems (kresults (fst (gpuscan_qual_all layout0 eval_pass deform0 [tupitem0 10] [[0]]
        (gpuscan_init 1, kds_empty KDS_FORMAT_SLOT 1024 1)))) = 0 \<and>
   rindex_recorded (kresults (fst (gpuscan_qual_all layout0 eval_pass deform0 [tupitem0 10] [[0]]
        (gpuscan_init 1, kds_empty KDS_FORMAT_SLOT 1024 1)))) \<noteq> rindex_expected [[(0, 1)]]"
  by (simp add: eval_defs slot_store_def rindex_recorded_def rindex_expected_def signed_rindex_def)

text \<open>
  Claim C7 at its failing input. In the second scan of the row projector a
  thread without a row does not take part with 0: its \<^verbatim>\<open>required\<close> is
  \<^verbatim>\<open>MAXALIGN(offsetof(kern_tupitem, htup) + 0)\<close>, 8 in this layout. A group of
  two threads without rows adds 16 to \<^verbatim>\<open>usage\<close>, and in an arena with 8 bytes
  behind the header it raises data-store-no-space with no row to store.
\<close>

theorem projection_row_null_thread_reserves:
  "row_required layout0 None = 8 \<and>
   kds_usage (snd (gpuscan_projection_row layout0
       [(INIT_KERNEL_CONTEXT, None), (INIT_KERNEL_CONTEXT, None)] (kds_empty KDS_FORMAT_ROW 1024 4))) = 16 \<and>
   map fst (fst (gpuscan_projection_row layout0
       [(INIT_KERNEL_CONTEXT, None), (INIT_KERNEL_CONTEXT, None)] (kds_empty KDS_FORMAT_ROW 72 4)))
     = [\<lparr> e_errcode = StromError_DataStoreNoSpace \<rparr>, \<lparr> e_errcode = StromError_DataStoreNoSpace \<rparr>]"
  by (simp add: eval_defs row_required_def row_tuple_len_def MAXALIGN_def STROMALIGN_def TYPEALIGN_def)

subsection \<open>The row projector's arena\<close>

lemma cl_uint_add_plain: "a + b < 2 ^ 32 \<Longrightarrow> cl_uint_add a b = a + b"
  by (simp add: cl_uint_add_def)

lemma cl_uint_sub_plain:
  assumes "b \<le> a" and "a < 2 ^ 32"
  shows "cl_uint_sub a b = a - b"
proof -
  have b: "b mod 2 ^ 32 = b" using assms by simp
  have "a + 2 ^ 32 - b = (a - b) + 2 ^ 32" using assms(1) by simp
  then have "(a + 2 ^ 32 - b) mod 2 ^ 32 = (a - b) mod 2 ^ 32"
    by (metis mod_add_self2)
  also have "\<dots> = a - b" using assms(2) by simp
  finally show ?thesis unfolding cl_uint_sub_def b .
qed

lemma TYPEALIGN_ge:
  assumes a: "0 < a"
  shows "len \<le> TYPEALIGN a len"
proof -
  define x where "x = len + (a - 1)"
  have e: "x div a * a + x mod a = x" by (rule div_mult_mod_eq)
  have m: "x mod a < a" using a by simp
  have "len + (a - 1) < x div a * a + a" using e m unfolding x_def [symmetric] by linarith
  then have "len \<le> x div a * a" using a by linarith
  then show ?thesis by (simp add: TYPEALIGN_def x_def)
qed

lemma row_raw_ge:
  "0 < MAXIMUM_ALIGNOF L \<Longrightarrow> tupitem_htup_offset L + row_tuple_len t \<le> row_raw L t"
  by (simp add: row_raw_def MAXALIGN_def TYPEALIGN_ge)

lemma row_required_raw: "row_raw L t < 2 ^ 32 \<Longrightarrow> row_required L t = row_raw L t"
  by (simp add: row_required_def row_raw_def)

lemma stairlike_total_plain:
  "acc + sum_list vs < 2 ^ 32 \<Longrightarrow> stairlike_total acc vs = acc + sum_list vs"
proof (induction vs arbitrary: acc)
  case Nil
  then show ?case by simp
next
  case (Cons v vs)
  have a: "cl_uint_add acc v = acc + v" using Cons.prems by (simp add: cl_uint_add_plain)
  have "acc + v + sum_list vs < 2 ^ 32" using Cons.prems by simp
  from Cons.IH [OF this] show ?case by (simp add: a)
qed

lemma row_threads_Nil [simp]: "row_threads L a1 a2 [] = []"
  by (simp add: row_threads_def)

lemma row_threads_Cons [simp]:
  "row_threads L a1 a2 (t # tups)
     = (t, a1, a2, row_required L t)
       # row_threads L (cl_uint_add a1 (if t \<noteq> None then 1 else 0)) (cl_uint_add a2 (row_required L t)) tups"
  by (simp add: row_threads_def)

lemma tups_Cons [simp]:
  "tups_count (t # tups) = (if t \<noteq> None then 1 else 0) + tups_count tups"
  "tups_bytes L (t # tups) = row_raw L t + tups_bytes L tups"
  "tups_count [] = 0" "tups_bytes L [] = 0"
  by (simp_all add: tups_count_def tups_bytes_def)

text \<open>Bounds on the scan results of every thread, when nothing wraps.\<close>

lemma row_threads_bounds:
  assumes "a1 + tups_count tups < 2 ^ 32" and "a2 + tups_bytes L tups < 2 ^ 32"
    and "(t, o1, o2, rq) \<in> set (row_threads L a1 a2 tups)"
  shows "a1 \<le> o1 \<and> (t \<noteq> None \<longrightarrow> o1 < a1 + tups_count tups) \<and>
         a2 \<le> o2 \<and> o2 + rq \<le> a2 + tups_bytes L tups \<and> rq = row_raw L t"
  using assms
proof (induction tups arbitrary: a1 a2)
  case Nil
  then show ?case by simp
next
  case (Cons u tups)
  have r: "row_raw L u < 2 ^ 32" using Cons.prems(2) by simp
  have rq: "row_required L u = row_raw L u" using r by (rule row_required_raw)
  have c1: "cl_uint_add a1 (if u \<noteq> None then 1 else 0) = a1 + (if u \<noteq> None then 1 else 0)"
    using Cons.prems(1) by (intro cl_uint_add_plain) (simp split: if_splits)
  have c2: "cl_uint_add a2 (row_required L u) = a2 + row_raw L u"
    unfolding rq using Cons.prems(2) by (intro cl_uint_add_plain) simp
  from Cons.prems(3) consider "(t, o1, o2, rq) = (u, a1, a2, row_required L u)"
    | "(t, o1, o2, rq) \<in> set (row_threads L (a1 + (if u \<noteq> None then 1 else 0)) (a2 + row_raw L u) tups)"
    unfolding row_threads_Cons c1 c2 by auto
  then show ?case
  proof cases
    case 1
    then show ?thesis using rq by auto
  next
    case 2
    have p1: "a1 + (if u \<noteq> None then 1 else 0) + tups_count tups < 2 ^ 32"
      using Cons.prems(1) by (simp add: add.assoc)
    have p2: "a2 + row_raw L u + tups_bytes L tups < 2 ^ 32"
      using Cons.prems(2) by (simp add: add.assoc)
    from Cons.IH [OF p1 p2 2] show ?thesis by (auto split: if_splits)
  qed
qed

lemma store_bytes_out:
  "a < addr \<or> addr + length bs \<le> a \<Longrightarrow> store_bytes m addr bs a = m a"
  by (auto simp: store_bytes_def)

lemma load_bytes_store_same: "load_bytes (store_bytes m addr bs) addr (length bs) = bs"
  by (auto simp: load_bytes_def store_bytes_def intro: nth_equalityI)

lemma load_bytes_cong:
  "(\<And>a. addr \<le> a \<Longrightarrow> a < addr + n \<Longrightarrow> m1 a = m2 a) \<Longrightarrow> load_bytes m1 addr n = load_bytes m2 addr n"
  by (simp add: load_bytes_def)

lemma cl_uint_bytes_length [simp]: "length (cl_uint_bytes v) = 4"
  by (simp add: cl_uint_bytes_def)

lemma row_htup_offset_plain:
  assumes "up + o2 + rq \<le> len" and "len < 2 ^ 32"
  shows "row_htup_offset len up o2 rq = len - (up + o2 + rq)"
proof -
  have a: "cl_uint_add up o2 = up + o2" using assms by (intro cl_uint_add_plain) simp
  have b: "cl_uint_add (up + o2) rq = up + o2 + rq" using assms by (intro cl_uint_add_plain) simp
  show ?thesis unfolding row_htup_offset_def a b using assms by (rule cl_uint_sub_plain)
qed

lemma row_item_index_plain: "np + o1 < 2 ^ 32 \<Longrightarrow> row_item_index np o1 = np + o1"
  by (simp add: row_item_index_def cl_uint_add_plain)

text \<open>One thread's stores stay inside its index entry and its byte reservation.\<close>

lemma row_store_out:
  assumes "a < KDS_HEAD_LENGTH L + 4 * row_item_index np o1 \<or>
           KDS_HEAD_LENGTH L + 4 * row_item_index np o1 + 4 \<le> a"
    and "a < row_htup_offset len up o2 rq \<or>
         row_htup_offset len up o2 rq + (tupitem_htup_offset L + row_tuple_len t) \<le> a"
  shows "row_store L len np up (t, o1, o2, rq) m a = m a"
proof (cases t)
  case None
  then show ?thesis by (simp add: row_store_def)
next
  case (Some x)
  have l: "length (take (tupitem_htup_offset L + t_len x) (item_bytes x)) \<le> tupitem_htup_offset L + t_len x"
    by simp
  have 1: "store_bytes (store_bytes m (row_htup_offset len up o2 rq)
                     (take (tupitem_htup_offset L + t_len x) (item_bytes x)))
                  (KDS_HEAD_LENGTH L + 4 * row_item_index np o1) (cl_uint_bytes (row_htup_offset len up o2 rq)) a
     = store_bytes m (row_htup_offset len up o2 rq)
                     (take (tupitem_htup_offset L + t_len x) (item_bytes x)) a"
    using assms(1) by (intro store_bytes_out) simp
  have 2: "store_bytes m (row_htup_offset len up o2 rq)
                     (take (tupitem_htup_offset L + t_len x) (item_bytes x)) a = m a"
    using assms(2) l unfolding Some row_tuple_len_def by (intro store_bytes_out) auto
  show ?thesis unfolding Some row_store_def by (simp add: Let_def 1 2)
qed

lemma row_fold_frame:
  assumes "0 < MAXIMUM_ALIGNOF L"
    and "np + a1 + tups_count tups < 2 ^ 32"
    and "up + a2 + tups_bytes L tups \<le> len" and "len < 2 ^ 32"
    and "a < KDS_HEAD_LENGTH L + 4 * (np + a1) \<or>
         KDS_HEAD_LENGTH L + 4 * (np + a1 + tups_count tups) \<le> a"
    and "a < len - (up + a2 + tups_bytes L tups) \<or> len - (up + a2) \<le> a"
  shows "fold (row_store L len np up) (row_threads L a1 a2 tups) m a = m a"
  using assms(2-)
proof (induction tups arbitrary: a1 a2 m)
  case Nil
  then show ?case by simp
next
  case (Cons u tups)
  define b where "b = (if u \<noteq> None then 1 else 0::nat)"
  define r where "r = row_raw L u"
  have tc: "tups_count (u # tups) = b + tups_count tups" and tb: "tups_bytes L (u # tups) = r + tups_bytes L tups"
    by (simp_all add: b_def r_def)
  have r32: "r < 2 ^ 32" using Cons.prems(2,3) tb by simp
  have rq: "row_required L u = r" unfolding r_def using r32 [unfolded r_def] by (rule row_required_raw)
  have c1: "cl_uint_add a1 b = a1 + b" using Cons.prems(1) tc by (intro cl_uint_add_plain) simp
  have c2: "cl_uint_add a2 r = a2 + r" using Cons.prems(2,3) tb by (intro cl_uint_add_plain) simp
  have step: "fold (row_store L len np up) (row_threads L a1 a2 (u # tups)) m
     = fold (row_store L len np up) (row_threads L (a1 + b) (a2 + r) tups) (row_store L len np up (u, a1, a2, r) m)"
    by (simp only: row_threads_Cons rq b_def [symmetric] c1 c2 fold_simps)
  have p1: "np + (a1 + b) + tups_count tups < 2 ^ 32" using Cons.prems(1) tc by simp
  have p2: "up + (a2 + r) + tups_bytes L tups \<le> len" using Cons.prems(2) tb by simp
  have p4: "a < KDS_HEAD_LENGTH L + 4 * (np + (a1 + b)) \<or>
         KDS_HEAD_LENGTH L + 4 * (np + (a1 + b) + tups_count tups) \<le> a"
    using Cons.prems(4) tc by auto
  have p5: "a < len - (up + (a2 + r) + tups_bytes L tups) \<or> len - (up + (a2 + r)) \<le> a"
    using Cons.prems(5) tb by auto
  have rest: "fold (row_store L len np up) (row_threads L (a1 + b) (a2 + r) tups) (row_store L len np up (u, a1, a2, r) m) a
     = row_store L len np up (u, a1, a2, r) m a"
    by (rule Cons.IH [OF p1 p2 Cons.prems(3) p4 p5])
  have head: "row_store L len np up (u, a1, a2, r) m a = m a"
  proof (cases u)
    case None
    then show ?thesis by (simp add: row_store_def)
  next
    case (Some x)
    then have b1: "b = 1" by (simp add: b_def)
    have ii: "row_item_index np a1 = np + a1" using Cons.prems(1) by (intro row_item_index_plain) simp
    have ho: "row_htup_offset len up a2 r = len - (up + a2 + r)"
      using p2 Cons.prems(3) by (intro row_htup_offset_plain) simp_all
    have ge: "tupitem_htup_offset L + row_tuple_len u \<le> r"
      unfolding r_def using assms(1) by (rule row_raw_ge)
    show ?thesis
    proof (rule row_store_out)
      show "a < KDS_HEAD_LENGTH L + 4 * row_item_index np a1 \<or>
           KDS_HEAD_LENGTH L + 4 * row_item_index np a1 + 4 \<le> a"
        unfolding ii using Cons.prems(4) tc b1 by auto
      show "a < row_htup_offset len up a2 r \<or>
         row_htup_offset len up a2 r + (tupitem_htup_offset L + row_tuple_len u) \<le> a"
        unfolding ho using Cons.prems(5) tb ge p2 by auto
    qed
  qed
  show ?case unfolding step rest head ..
qed

lemma row_fold_content:
  assumes "0 < MAXIMUM_ALIGNOF L"
    and "np + a1 + tups_count tups < 2 ^ 32"
    and "up + a2 + tups_bytes L tups \<le> len" and "len < 2 ^ 32"
    and "KDS_HEAD_LENGTH L + 4 * (np + a1 + tups_count tups) \<le> len - (up + a2 + tups_bytes L tups)"
    and "\<forall>t \<in> set tups. item_ok L t"
    and "(Some x, o1, o2, rq) \<in> set (row_threads L a1 a2 tups)"
  shows "load_bytes (fold (row_store L len np up) (row_threads L a1 a2 tups) m)
           (row_htup_offset len up o2 rq) (tupitem_htup_offset L + t_len x)
         = take (tupitem_htup_offset L + t_len x) (item_bytes x) \<and>
         load_bytes (fold (row_store L len np up) (row_threads L a1 a2 tups) m)
           (KDS_HEAD_LENGTH L + 4 * row_item_index np o1) 4
         = cl_uint_bytes (row_htup_offset len up o2 rq)"
  using assms(2-)
proof (induction tups arbitrary: a1 a2 m)
  case Nil
  then show ?case by simp
next
  case (Cons u tups)
  define b where "b = (if u \<noteq> None then 1 else 0::nat)"
  define r where "r = row_raw L u"
  define H where "H = KDS_HEAD_LENGTH L"
  define C where "C = tups_count tups"
  define B where "B = tups_bytes L tups"
  have tc: "tups_count (u # tups) = b + C" and tb: "tups_bytes L (u # tups) = r + B"
    by (simp_all add: b_def r_def C_def B_def)
  have nw: "np + a1 + (b + C) < 2 ^ 32" using Cons.prems(1) tc by simp
  have bd: "up + a2 + (r + B) \<le> len" using Cons.prems(2) tb by simp
  have dj: "H + 4 * (np + a1 + (b + C)) \<le> len - (up + a2 + (r + B))"
    using Cons.prems(4) tc tb by (simp add: H_def)
  have r32: "r < 2 ^ 32" using bd Cons.prems(3) by simp
  have rq: "row_required L u = r" unfolding r_def using r32 [unfolded r_def] by (rule row_required_raw)
  have c1: "cl_uint_add a1 b = a1 + b" using nw by (intro cl_uint_add_plain) simp
  have c2: "cl_uint_add a2 r = a2 + r" using bd Cons.prems(3) by (intro cl_uint_add_plain) simp
  define m1 where "m1 = row_store L len np up (u, a1, a2, r) m"
  define m' where "m' = fold (row_store L len np up) (row_threads L (a1 + b) (a2 + r) tups) m1"
  have step: "fold (row_store L len np up) (row_threads L a1 a2 (u # tups)) m = m'"
    unfolding m'_def m1_def
    by (simp only: row_threads_Cons rq b_def [symmetric] c1 c2 fold_simps)
  have p1: "np + (a1 + b) + tups_count tups < 2 ^ 32" using nw by (simp add: C_def)
  have p2: "up + (a2 + r) + tups_bytes L tups \<le> len" using bd by (simp add: B_def)
  have p4: "KDS_HEAD_LENGTH L + 4 * (np + (a1 + b) + tups_count tups)
              \<le> len - (up + (a2 + r) + tups_bytes L tups)"
    using dj by (simp add: H_def C_def B_def add.assoc)
  have p5: "\<forall>t \<in> set tups. item_ok L t" using Cons.prems(5) by simp
  from Cons.prems(6) consider (head) "(Some x, o1, o2, rq) = (u, a1, a2, r)"
    | (tail) "(Some x, o1, o2, rq) \<in> set (row_threads L (a1 + b) (a2 + r) tups)"
    by (simp only: row_threads_Cons rq b_def [symmetric] c1 c2 set_simps) blast
  then show ?case
  proof cases
    case tail
    show ?thesis unfolding step m'_def
      by (rule Cons.IH [OF p1 p2 Cons.prems(3) p4 p5 tail])
  next
    case head
    then have u: "u = Some x" and o: "o1 = a1" "o2 = a2" "rq = r" by simp_all
    have b1: "b = 1" using u by (simp add: b_def)
    define n where "n = tupitem_htup_offset L + t_len x"
    define src where "src = take n (item_bytes x)"
    have ok: "0 < t_len x" "n \<le> length (item_bytes x)"
      using Cons.prems(5) u by (simp_all add: item_ok_def n_def)
    have lsrc: "length src = n" using ok by (simp add: src_def)
    have ge: "n \<le> r"
      using row_raw_ge [OF assms(1), of u] by (simp add: r_def n_def u row_tuple_len_def)
    define ie where "ie = H + 4 * (np + a1)"
    define off where "off = len - (up + a2 + r)"
    have ii: "row_item_index np a1 = np + a1" using nw by (intro row_item_index_plain) simp
    have ho: "row_htup_offset len up a2 r = off"
      unfolding off_def using bd Cons.prems(3) by (intro row_htup_offset_plain) simp_all
    have m1: "m1 = store_bytes (store_bytes m off src) ie (cl_uint_bytes off)"
      unfolding m1_def u row_store_def
      by (simp add: Let_def ii ho ie_def H_def src_def n_def)
    have sep: "ie + 4 \<le> off" using dj b1 bd unfolding ie_def off_def by simp
    have offn: "off + n \<le> len - (up + a2)" using ge bd unfolding off_def by simp
    have l1: "load_bytes m1 ie 4 = cl_uint_bytes off"
      unfolding m1 using load_bytes_store_same [of "store_bytes m off src" ie "cl_uint_bytes off"]
      by simp
    have "load_bytes m1 off n = load_bytes (store_bytes m off src) off n"
      unfolding m1 using sep by (intro load_bytes_cong store_bytes_out) simp
    also have "\<dots> = src" using load_bytes_store_same [of m off src] by (simp add: lsrc)
    finally have l2: "load_bytes m1 off n = src" .
    define X where "X = KDS_HEAD_LENGTH L + 4 * (np + (a1 + b) + tups_count tups)"
    define Y where "Y = len - (up + (a2 + r) + tups_bytes L tups)"
    define Z where "Z = len - (up + (a2 + r))"
    have XY: "X \<le> Y" unfolding X_def Y_def by (rule p4)
    have YZ: "Y \<le> Z" unfolding Y_def Z_def by simp
    have Zoff: "Z = off" unfolding Z_def off_def by (simp add: add.assoc)
    have ieX: "ie + 4 \<le> X" unfolding ie_def X_def H_def b1 by simp
    have ieb: "ie + 4 = KDS_HEAD_LENGTH L + 4 * (np + (a1 + b))" unfolding ie_def H_def b1 by simp
    have k1: "load_bytes m' ie 4 = load_bytes m1 ie 4"
    proof (rule load_bytes_cong)
      fix a assume a: "ie \<le> a" "a < ie + 4"
      show "m' a = m1 a" unfolding m'_def
      proof (rule row_fold_frame [OF assms(1) p1 p2 Cons.prems(3)])
        show "a < KDS_HEAD_LENGTH L + 4 * (np + (a1 + b)) \<or>
          KDS_HEAD_LENGTH L + 4 * (np + (a1 + b) + tups_count tups) \<le> a"
          using a(2) unfolding ieb by simp
        have "a < Y" using a(2) ieX XY by linarith
        then show "a < len - (up + (a2 + r) + tups_bytes L tups) \<or> len - (up + (a2 + r)) \<le> a"
          unfolding Y_def by simp
      qed
    qed
    have k2: "load_bytes m' off n = load_bytes m1 off n"
    proof (rule load_bytes_cong)
      fix a assume a: "off \<le> a" "a < off + n"
      show "m' a = m1 a" unfolding m'_def
      proof (rule row_fold_frame [OF assms(1) p1 p2 Cons.prems(3)])
        have "X \<le> a" using a(1) XY YZ Zoff by linarith
        then show "a < KDS_HEAD_LENGTH L + 4 * (np + (a1 + b)) \<or>
          KDS_HEAD_LENGTH L + 4 * (np + (a1 + b) + tups_count tups) \<le> a"
          unfolding X_def by simp
        have "Z \<le> a" using a(1) Zoff by simp
        then show "a < len - (up + (a2 + r) + tups_bytes L tups) \<or> len - (up + (a2 + r)) \<le> a"
          unfolding Z_def by simp
      qed
    qed
    show ?thesis
      unfolding step o ho ii
      using k1 k2 l1 l2 by (simp add: ie_def H_def n_def src_def)
  qed
qed

lemma row_count_tups: "row_count grp = tups_count (map snd grp)"
  by (simp add: row_count_def tups_count_def)

lemma row_bytes_tups: "row_bytes L grp = tups_bytes L (map snd grp)"
  by (simp add: row_bytes_def tups_bytes_def)

lemma row_required_map:
  "tups_bytes L tups < 2 ^ 32 \<Longrightarrow> map (row_required L) tups = map (row_raw L) tups"
proof (induction tups)
  case Nil
  then show ?case by simp
next
  case (Cons t tups)
  have "row_raw L t < 2 ^ 32" "tups_bytes L tups < 2 ^ 32" using Cons.prems by simp_all
  then show ?case using Cons.IH by (simp add: row_required_raw)
qed

lemma item_ok_raw_pos:
  assumes "0 < MAXIMUM_ALIGNOF L" and "item_ok L (Some x)"
  shows "0 < row_raw L (Some x)"
proof -
  have "tupitem_htup_offset L + row_tuple_len (Some x) \<le> row_raw L (Some x)"
    using assms(1) by (rule row_raw_ge)
  moreover have "0 < row_tuple_len (Some x)" using assms(2) by (simp add: item_ok_def row_tuple_len_def)
  ultimately show ?thesis by linarith
qed

lemma tups_count_pos_bytes:
  assumes "0 < MAXIMUM_ALIGNOF L" and "\<forall>t \<in> set tups. item_ok L t" and "0 < tups_count tups"
  shows "0 < tups_bytes L tups"
  using assms(2,3)
proof (induction tups)
  case Nil
  then show ?case by simp
next
  case (Cons t tups)
  show ?case
  proof (cases t)
    case None
    then show ?thesis using Cons by simp
  next
    case (Some x)
    then have "0 < row_raw L t" using Cons.prems(1) assms(1) by (simp add: item_ok_raw_pos)
    then show ?thesis by simp
  qed
qed

text \<open>The three outcomes of one group's call when no counter wraps.\<close>

lemma projection_row_cases:
  fixes L grp kds
  defines "c \<equiv> row_count grp" and "bb \<equiv> row_bytes L grp"
    and "N \<equiv> kds_nitems kds" and "U \<equiv> kds_usage kds"
  defines "np \<equiv> (if 0 < c then N else 0)" and "up \<equiv> (if 0 < bb then U else 0)"
  assumes nw1: "N + c < 2 ^ 32" and nw2: "U + bb < 2 ^ 32"
  obtains
    (items) "0 < c" "kds_nrooms kds < N + c"
      "gpuscan_projection_row L grp kds
         = (map (\<lambda>(kcxt, t). (STROM_SET_ERROR StromError_DataStoreNoSpace kcxt, None)) grp,
            kds\<lparr> kds_nitems := N + c \<rparr>)"
  | (usage) "kds_length kds < KDS_HEAD_LENGTH L + STROMALIGN L (4 * (N + c)) + up + bb"
      "gpuscan_projection_row L grp kds
         = (map (\<lambda>(kcxt, t). (STROM_SET_ERROR StromError_DataStoreNoSpace kcxt, None)) grp,
            kds\<lparr> kds_nitems := N + c, kds_usage := U + bb \<rparr>)"
  | (ok) "0 < c \<longrightarrow> N + c \<le> kds_nrooms kds"
      "KDS_HEAD_LENGTH L + STROMALIGN L (4 * (N + c)) + up + bb \<le> kds_length kds"
      "gpuscan_projection_row L grp kds
         = (zip (map fst grp) (map (row_commit (kds_length kds) np up) (row_threads L 0 0 (map snd grp))),
            kds\<lparr> kds_nitems := N + c, kds_usage := U + bb,
                 kds_mem := fold (row_store L (kds_length kds) np up) (row_threads L 0 0 (map snd grp))
                              (kds_mem kds) \<rparr>)"
proof -
  let ?bins = "map (\<lambda>t. if t \<noteq> None then 1 else 0) (map snd grp)"
  have t1: "stairlike_total 0 ?bins = c"
    using nw1 by (simp add: stairlike_total_plain c_def row_count_def)
  have bb32: "tups_bytes L (map snd grp) < 2 ^ 32" using nw2 by (simp add: bb_def row_bytes_tups)
  have t2: "stairlike_total 0 (map (row_required L) (map snd grp)) = bb"
    unfolding row_required_map [OF bb32] using nw2
    by (simp add: stairlike_total_plain bb_def row_bytes_def)
  have a1: "cl_uint_add N c = N + c" using nw1 by (rule cl_uint_add_plain)
  have a2: "cl_uint_add U bb = U + bb" using nw2 by (rule cl_uint_add_plain)
  have a0: "cl_uint_add 0 0 = 0" by (simp add: cl_uint_add_def)
  define kds1 where "kds1 = (if 0 < c then kds\<lparr> kds_nitems := N + c \<rparr> else kds)"
  have k1: "kds1 = kds\<lparr> kds_nitems := N + c \<rparr>" by (simp add: kds1_def N_def)
  define kds2 where "kds2 = (if 0 < bb then kds1\<lparr> kds_usage := U + bb \<rparr> else kds1)"
  have k2: "kds2 = kds\<lparr> kds_nitems := N + c, kds_usage := U + bb \<rparr>"
    by (simp add: kds2_def k1 U_def)
  have npc: "cl_uint_add np c = (if 0 < c then N + c else 0)"
    by (simp add: np_def a1 a0)
  have unf: "gpuscan_projection_row L grp kds =
     (if cl_uint_add np c > kds_nrooms kds1
      then (map (\<lambda>(kcxt, t). (STROM_SET_ERROR StromError_DataStoreNoSpace kcxt, None)) grp, kds1)
      else if KDS_HEAD_LENGTH L + STROMALIGN L (4 * kds_nitems kds2) + up + bb > kds_length kds2
      then (map (\<lambda>(kcxt, t). (STROM_SET_ERROR StromError_DataStoreNoSpace kcxt, None)) grp, kds2)
      else (zip (map fst grp) (map (row_commit (kds_length kds2) np up) (row_threads L 0 0 (map snd grp))),
            kds2\<lparr> kds_mem := fold (row_store L (kds_length kds2) np up) (row_threads L 0 0 (map snd grp))
                              (kds_mem kds2) \<rparr>))"
    by (cases "0 < c"; cases "0 < bb")
       (simp_all add: gpuscan_projection_row_def arithmetic_stairlike_add_def Let_def t1 t2
          row_threads_def kds1_def kds2_def np_def up_def N_def U_def
          a1 [unfolded N_def] a2 [unfolded U_def] a0 del: map_map not_None_eq)
  show ?thesis
  proof (cases "cl_uint_add np c > kds_nrooms kds1")
    case True
    then have "0 < c" "kds_nrooms kds < N + c"
      unfolding npc k1 by (simp_all split: if_splits)
    moreover have "gpuscan_projection_row L grp kds
         = (map (\<lambda>(kcxt, t). (STROM_SET_ERROR StromError_DataStoreNoSpace kcxt, None)) grp,
            kds\<lparr> kds_nitems := N + c \<rparr>)"
      unfolding unf using True by (simp add: k1)
    ultimately show ?thesis by (rule items)
  next
    case False
    then have le: "0 < c \<longrightarrow> N + c \<le> kds_nrooms kds"
      unfolding npc k1 by (simp split: if_splits)
    show ?thesis
    proof (cases "KDS_HEAD_LENGTH L + STROMALIGN L (4 * kds_nitems kds2) + up + bb > kds_length kds2")
      case True
      then have "kds_length kds < KDS_HEAD_LENGTH L + STROMALIGN L (4 * (N + c)) + up + bb"
        by (simp add: k2)
      moreover have "gpuscan_projection_row L grp kds
         = (map (\<lambda>(kcxt, t). (STROM_SET_ERROR StromError_DataStoreNoSpace kcxt, None)) grp,
            kds\<lparr> kds_nitems := N + c, kds_usage := U + bb \<rparr>)"
        unfolding unf using \<open>\<not> cl_uint_add np c > kds_nrooms kds1\<close> True by (simp add: k2)
      ultimately show ?thesis by (rule usage)
    next
      case F2: False
      then have "KDS_HEAD_LENGTH L + STROMALIGN L (4 * (N + c)) + up + bb \<le> kds_length kds"
        by (simp add: k2)
      moreover have "gpuscan_projection_row L grp kds
         = (zip (map fst grp) (map (row_commit (kds_length kds) np up) (row_threads L 0 0 (map snd grp))),
            kds\<lparr> kds_nitems := N + c, kds_usage := U + bb,
                 kds_mem := fold (row_store L (kds_length kds) np up) (row_threads L 0 0 (map snd grp))
                              (kds_mem kds) \<rparr>)"
        unfolding unf using False F2 by (simp add: k2)
      ultimately show ?thesis using le by (intro ok) 
    qed
  qed
qed

lemma row_group_okD:
  assumes "row_group_ok L grp kds"
  shows "0 < MAXIMUM_ALIGNOF L" "0 < STROMALIGN_LEN L" "kds_length kds < 2 ^ 32"
    "kds_nitems kds + row_count grp < 2 ^ 32" "kds_usage kds + row_bytes L grp < 2 ^ 32"
    "\<forall>t \<in> set (map snd grp). item_ok L t"
  using assms by (simp_all add: row_group_ok_def row_input_ok_def)

lemma STROMALIGN_ge: "0 < STROMALIGN_LEN L \<Longrightarrow> n \<le> STROMALIGN L n"
  by (simp add: STROMALIGN_def TYPEALIGN_ge)

text \<open>Counters and fixed fields after one group's call.\<close>

lemma projection_row_counters:
  assumes ok: "row_group_ok L grp kds"
    and run: "gpuscan_projection_row L grp kds = (res, kds')"
  shows "kds_nitems kds' = kds_nitems kds + row_count grp"
    and "kds_usage kds \<le> kds_usage kds'" and "kds_usage kds' \<le> kds_usage kds + row_bytes L grp"
    and "kds_length kds' = kds_length kds" and "kds_nrooms kds' = kds_nrooms kds"
proof -
  note d = row_group_okD [OF ok]
  have "kds_nitems kds' = kds_nitems kds + row_count grp \<and>
        kds_usage kds \<le> kds_usage kds' \<and> kds_usage kds' \<le> kds_usage kds + row_bytes L grp \<and>
        kds_length kds' = kds_length kds \<and> kds_nrooms kds' = kds_nrooms kds"
  proof (rule projection_row_cases [OF d(4,5)], goal_cases)
    case 1
    then show ?case using run by auto
  next
    case 2
    then show ?case using run by auto
  next
    case 3
    then show ?case using run by auto
  qed
  then show "kds_nitems kds' = kds_nitems kds + row_count grp"
    and "kds_usage kds \<le> kds_usage kds'" and "kds_usage kds' \<le> kds_usage kds + row_bytes L grp"
    and "kds_length kds' = kds_length kds" and "kds_nrooms kds' = kds_nrooms kds"
    by blast+
qed

text \<open>
  One group's call leaves alone every address below the index-array mark
  and every address at or above the tuple mark of the store it started from.
\<close>

lemma projection_row_frame:
  assumes ok: "row_group_ok L grp kds"
    and run: "gpuscan_projection_row L grp kds = (res, kds')"
    and a: "a < KDS_HEAD_LENGTH L + 4 * kds_nitems kds \<or> kds_length kds - kds_usage kds \<le> a"
  shows "kds_mem kds' a = kds_mem kds a"
proof -
  note d = row_group_okD [OF ok]
  define c where "c = row_count grp"
  define bb where "bb = row_bytes L grp"
  define N where "N = kds_nitems kds"
  define U where "U = kds_usage kds"
  define len where "len = kds_length kds"
  define H where "H = KDS_HEAD_LENGTH L"
  define np where "np = (if 0 < c then N else 0)"
  define up where "up = (if 0 < bb then U else 0)"
  show ?thesis
  proof (rule projection_row_cases [OF d(4,5)], goal_cases)
    case 1
    then show ?case using run by auto
  next
    case 2
    then show ?case using run by auto
  next
    case 3
    define SA where "SA = STROMALIGN L (4 * (N + c))"
    have chk: "H + SA + up + bb \<le> len"
      using 3(2) unfolding H_def SA_def N_def c_def up_def bb_def U_def len_def .
    have sa: "4 * (N + c) \<le> SA" unfolding SA_def using d(2) by (rule STROMALIGN_ge)
    have mem: "kds_mem kds' = fold (row_store L len np up) (row_threads L 0 0 (map snd grp)) (kds_mem kds)"
      using run 3(3) by (auto simp: len_def np_def up_def c_def bb_def N_def U_def)
    have cb: "0 < c \<Longrightarrow> 0 < bb"
      using tups_count_pos_bytes [OF d(1) d(6)] by (simp add: c_def bb_def row_count_tups row_bytes_tups)
    have f1: "np + 0 + tups_count (map snd grp) < 2 ^ 32"
      using d(4) by (simp add: np_def row_count_tups [symmetric] N_def c_def)
    have f2: "up + 0 + tups_bytes L (map snd grp) \<le> len"
      using chk by (simp add: row_bytes_tups [symmetric] bb_def)
    have f3: "len < 2 ^ 32" using d(3) by (simp add: len_def)
    have a': "a < H + 4 * N \<or> len - U \<le> a" using a by (simp add: H_def N_def len_def U_def)
    have f4: "a < KDS_HEAD_LENGTH L + 4 * (np + 0) \<or>
         KDS_HEAD_LENGTH L + 4 * (np + 0 + tups_count (map snd grp)) \<le> a"
    proof (cases "0 < c")
      case False
      then show ?thesis by (simp add: np_def row_count_tups [symmetric] c_def [symmetric]) arith
    next
      case True
      then have up: "up = U" using cb by (simp add: up_def)
      have "H + 4 * (N + c) \<le> len - U" using chk sa unfolding up by arith
      then have "a < H + 4 * N \<or> H + 4 * (N + c) \<le> a" using a' by arith
      then show ?thesis using True by (simp add: np_def row_count_tups [symmetric] c_def [symmetric] H_def)
    qed
    have f5: "a < len - (up + 0 + tups_bytes L (map snd grp)) \<or> len - (up + 0) \<le> a"
    proof (cases "0 < bb")
      case False
      then show ?thesis by (simp add: row_bytes_tups [symmetric] bb_def [symmetric]) arith
    next
      case True
      then have up: "up = U" by (simp add: up_def)
      have "H + 4 * N \<le> len - (U + bb)" using chk sa unfolding up by arith
      then have "a < len - (U + bb) \<or> len - U \<le> a" using a' by arith
      then show ?thesis by (simp add: up row_bytes_tups [symmetric] bb_def [symmetric])
    qed
    show ?case unfolding mem by (rule row_fold_frame [OF d(1) f1 f2 f3 f4 f5])
  qed
qed

lemma length_row_threads [simp]: "length (row_threads L a1 a2 tups) = length tups"
  by (simp add: row_threads_def)

lemma row_threads_nth:
  "i < length tups \<Longrightarrow> fst (row_threads L a1 a2 tups ! i) = tups ! i"
  by (simp add: row_threads_def)

lemma zip_failed_None:
  assumes "(th, (kcxt', cm)) \<in> set (zip grp (map (\<lambda>(kcxt, t). (f kcxt, None)) grp))"
  shows "cm = None"
proof -
  from assms have "(kcxt', cm) \<in> set (map (\<lambda>(kcxt, t). (f kcxt, None)) grp)"
    by (rule set_zip_rightD)
  then show ?thesis by auto
qed

text \<open>What a committing thread of a successful group has reserved and stored.\<close>

lemma projection_row_commit:
  assumes ok: "row_group_ok L grp kds"
    and run: "gpuscan_projection_row L grp kds = (res, kds')"
    and mem: "((kcxt, t), (kcxt', cm)) \<in> set (zip grp res)"
    and cm: "cm = Some (idx, off)"
  shows "\<exists>x. t = Some x \<and> kcxt' = kcxt \<and>
           idx < kds_nitems kds' \<and>
           kds_length kds - kds_usage kds' \<le> off \<and>
           KDS_HEAD_LENGTH L + 4 * kds_nitems kds' \<le> kds_length kds - kds_usage kds' \<and>
           load_bytes (kds_mem kds') off (tupitem_htup_offset L + t_len x)
             = take (tupitem_htup_offset L + t_len x) (item_bytes x) \<and>
           load_bytes (kds_mem kds') (KDS_HEAD_LENGTH L + 4 * idx) 4 = cl_uint_bytes off"
proof -
  note d = row_group_okD [OF ok]
  define c where "c = row_count grp"
  define bb where "bb = row_bytes L grp"
  define N where "N = kds_nitems kds"
  define U where "U = kds_usage kds"
  define len where "len = kds_length kds"
  define H where "H = KDS_HEAD_LENGTH L"
  define np where "np = (if 0 < c then N else 0)"
  define up where "up = (if 0 < bb then U else 0)"
  define tups where "tups = map snd grp"
  define ths where "ths = row_threads L 0 0 tups"
  have cnt: "tups_count tups = c" and byt: "tups_bytes L tups = bb"
    by (simp_all add: tups_def c_def bb_def row_count_tups row_bytes_tups)
  show ?thesis
  proof (rule projection_row_cases [OF d(4,5)], goal_cases)
    case 1
    then have "res = map (\<lambda>(kcxt, t). (STROM_SET_ERROR StromError_DataStoreNoSpace kcxt, None)) grp"
      using run by simp
    then have "cm = None" using mem zip_failed_None by metis
    then show ?case using cm by simp
  next
    case 2
    then have "res = map (\<lambda>(kcxt, t). (STROM_SET_ERROR StromError_DataStoreNoSpace kcxt, None)) grp"
      using run by simp
    then have "cm = None" using mem zip_failed_None by metis
    then show ?case using cm by simp
  next
    case 3
    define SA where "SA = STROMALIGN L (4 * (N + c))"
    have chk: "H + SA + up + bb \<le> len"
      using 3(2) unfolding H_def SA_def N_def c_def up_def bb_def U_def len_def .
    have sa: "4 * (N + c) \<le> SA" unfolding SA_def using d(2) by (rule STROMALIGN_ge)
    have res: "res = zip (map fst grp) (map (row_commit len np up) ths)"
      and kds': "kds' = kds\<lparr> kds_nitems := N + c, kds_usage := U + bb,
                 kds_mem := fold (row_store L len np up) ths (kds_mem kds) \<rparr>"
      using run 3(3) by (auto simp: len_def np_def up_def c_def bb_def N_def U_def ths_def tups_def)
    from mem obtain i where i: "i < length grp" "grp ! i = (kcxt, t)" "res ! i = (kcxt', cm)"
      by (auto simp: set_zip)
    have li: "i < length ths" using i(1) by (simp add: ths_def tups_def)
    have "res ! i = (fst (grp ! i), row_commit len np up (ths ! i))"
      unfolding res using i(1) li by simp
    then have k: "kcxt' = kcxt" and cmi: "cm = row_commit len np up (ths ! i)"
      using i(2,3) by simp_all
    have fsti: "fst (ths ! i) = t"
      unfolding ths_def using row_threads_nth [of i tups L 0 0] i(1,2) by (simp add: tups_def)
    obtain o1 o2 rq where thi: "ths ! i = (t, o1, o2, rq)"
      using fsti by (cases "ths ! i") auto
    have inset: "(t, o1, o2, rq) \<in> set ths" using li thi by (metis nth_mem)
    from cmi cm thi obtain x where x: "t = Some x"
      and idx: "idx = row_item_index np o1" and off: "off = row_htup_offset len up o2 rq"
      by (auto simp: row_commit_def split: option.splits)
    have nw1: "0 + tups_count tups < 2 ^ 32" using d(4) by (simp add: cnt c_def)
    have nw2: "0 + tups_bytes L tups < 2 ^ 32" using d(5) by (simp add: byt bb_def)
    from row_threads_bounds [OF nw1 nw2 inset [unfolded ths_def]] x
    have b: "o1 < c" "o2 + rq \<le> bb" "rq = row_raw L t"
      by (simp_all add: cnt byt)
    have cpos: "0 < c" using b(1) by simp
    have f5: "\<forall>t \<in> set tups. item_ok L t" using d(6) by (simp add: tups_def)
    have bpos: "0 < bb"
      using tups_count_pos_bytes [OF d(1) f5] cpos unfolding cnt byt by simp
    have np: "np = N" using cpos by (simp add: np_def)
    have up: "up = U" using bpos by (simp add: up_def)
    have chk': "H + SA + U + bb \<le> len" using chk unfolding up .
    have idx': "idx = N + o1"
      unfolding idx np using d(4) b(1) by (intro row_item_index_plain) (simp add: N_def c_def)
    have off': "off = len - (U + o2 + rq)"
      unfolding off up using chk' b(2) d(3) by (intro row_htup_offset_plain) (simp_all add: len_def)
    have g1: "idx < kds_nitems kds'" unfolding idx' kds' using b(1) by simp
    have g2: "kds_length kds - kds_usage kds' \<le> off"
      unfolding off' kds' using b(2) by (simp add: len_def)
    have g3: "KDS_HEAD_LENGTH L + 4 * kds_nitems kds' \<le> kds_length kds - kds_usage kds'"
      unfolding kds' using chk' sa by (simp add: H_def len_def)
    have f1: "np + 0 + tups_count tups < 2 ^ 32" using d(4) by (simp add: np cnt N_def c_def)
    have f2: "up + 0 + tups_bytes L tups \<le> len" using chk' by (simp add: up byt)
    have f3: "len < 2 ^ 32" using d(3) by (simp add: len_def)
    have f4: "KDS_HEAD_LENGTH L + 4 * (np + 0 + tups_count tups) \<le> len - (up + 0 + tups_bytes L tups)"
      using chk' sa by (simp add: np up cnt byt H_def)
    have f6: "(Some x, o1, o2, rq) \<in> set (row_threads L 0 0 tups)"
      using inset x by (simp add: ths_def)
    note content = row_fold_content [OF d(1) f1 f2 f3 f4 f5 f6, of "kds_mem kds"]
    have m': "kds_mem kds' = fold (row_store L len np up) (row_threads L 0 0 tups) (kds_mem kds)"
      unfolding kds' ths_def by simp
    have g4: "load_bytes (kds_mem kds') off (tupitem_htup_offset L + t_len x)
             = take (tupitem_htup_offset L + t_len x) (item_bytes x)"
      and g5: "load_bytes (kds_mem kds') (KDS_HEAD_LENGTH L + 4 * idx) 4 = cl_uint_bytes off"
      unfolding m' idx off using content by simp_all
    show ?case using x k g1 g2 g3 g4 g5 by blast
  qed
qed

lemma projection_row_length:
  "gpuscan_projection_row L grp kds = (res, kds') \<Longrightarrow> length res = length grp"
  by (auto simp: gpuscan_projection_row_def arithmetic_stairlike_add_def Let_def
      split: if_splits prod.splits)

lemma row_input_ok_Cons:
  assumes "row_input_ok L (grp # sched) kds"
  shows "row_group_ok L grp kds"
    and "gpuscan_projection_row L grp kds = (res, kds1) \<Longrightarrow> row_input_ok L sched kds1"
proof -
  show g: "row_group_ok L grp kds"
    using assms by (simp add: row_group_ok_def row_input_ok_def)
  assume run: "gpuscan_projection_row L grp kds = (res, kds1)"
  note c = projection_row_counters [OF g run]
  show "row_input_ok L sched kds1"
    using assms c(3) unfolding row_input_ok_def c(1,4) by simp
qed

text \<open>Along a schedule the two marks only move towards each other.\<close>

lemma projection_row_all_counters:
  "row_input_ok L sched kds \<Longrightarrow> projection_row_all L sched kds = (ress, kds') \<Longrightarrow>
   kds_nitems kds \<le> kds_nitems kds' \<and> kds_usage kds \<le> kds_usage kds' \<and>
   kds_length kds' = kds_length kds \<and> length ress = length sched"
proof (induction sched arbitrary: kds ress kds')
  case Nil
  then show ?case by simp
next
  case (Cons grp sched)
  obtain res kds1 where g: "gpuscan_projection_row L grp kds = (res, kds1)"
    by (cases "gpuscan_projection_row L grp kds")
  obtain ress1 kds2 where r: "projection_row_all L sched kds1 = (ress1, kds2)"
    by (cases "projection_row_all L sched kds1")
  have e: "ress = res # ress1" "kds' = kds2" using Cons.prems(2) g r by simp_all
  note ok = row_input_ok_Cons [OF Cons.prems(1)]
  note c = projection_row_counters [OF ok(1) g]
  note ih = Cons.IH [OF ok(2) [OF g] r]
  show ?case unfolding e using ih c by simp
qed

lemma projection_row_all_frame:
  "row_input_ok L sched kds \<Longrightarrow> projection_row_all L sched kds = (ress, kds') \<Longrightarrow>
   a < KDS_HEAD_LENGTH L + 4 * kds_nitems kds \<or> kds_length kds - kds_usage kds \<le> a \<Longrightarrow>
   kds_mem kds' a = kds_mem kds a"
proof (induction sched arbitrary: kds ress kds')
  case Nil
  then show ?case by simp
next
  case (Cons grp sched)
  obtain res kds1 where g: "gpuscan_projection_row L grp kds = (res, kds1)"
    by (cases "gpuscan_projection_row L grp kds")
  obtain ress1 kds2 where r: "projection_row_all L sched kds1 = (ress1, kds2)"
    by (cases "projection_row_all L sched kds1")
  have e: "kds' = kds2" using Cons.prems(2) g r by simp
  note ok = row_input_ok_Cons [OF Cons.prems(1)]
  note c = projection_row_counters [OF ok(1) g]
  have a1: "a < KDS_HEAD_LENGTH L + 4 * kds_nitems kds1 \<or> kds_length kds1 - kds_usage kds1 \<le> a"
    using Cons.prems(3) c(1,2,4) by auto
  have "kds_mem kds2 a = kds_mem kds1 a" by (rule Cons.IH [OF ok(2) [OF g] r a1])
  also have "\<dots> = kds_mem kds a" by (rule projection_row_frame [OF ok(1) g Cons.prems(3)])
  finally show ?case unfolding e .
qed

lemma zip_map_same: "(x, y) \<in> set (zip xs (map f xs)) \<Longrightarrow> y = f x"
  by (induction xs) auto

lemma projection_row_thread:
  assumes ok: "row_group_ok L grp kds"
    and run: "gpuscan_projection_row L grp kds = (res, kds')"
    and mem: "(th, r) \<in> set (zip grp res)"
  shows "thread_verbatim L (kds_mem kds') th r"
proof (cases "snd r")
  case (Some p)
  obtain kcxt t where th: "th = (kcxt, t)" by (cases th)
  obtain idx off where p: "p = (idx, off)" by (cases p)
  obtain kcxt' where r: "r = (kcxt', Some (idx, off))" using Some p by (cases r) auto
  from projection_row_commit [OF ok run mem [unfolded th r] refl]
  show ?thesis
    by (auto simp: thread_verbatim_def th r row_copied_def)
next
  case None
  note d = row_group_okD [OF ok]
  obtain kcxt t where th: "th = (kcxt, t)" by (cases th)
  obtain kcxt' where r: "r = (kcxt', None)" using None by (cases r) auto
  let ?f = "\<lambda>(kcxt, t). (STROM_SET_ERROR StromError_DataStoreNoSpace kcxt, None :: (nat \<times> nat) option)"
  have failed: "thread_verbatim L (kds_mem kds') th r" if "res = map ?f grp"
  proof -
    from mem that have "r = ?f th" using zip_map_same by metis
    then show ?thesis by (simp add: thread_verbatim_def th r split: option.splits)
  qed
  show ?thesis
  proof (rule projection_row_cases [OF d(4,5)], goal_cases)
    case 1
    then show ?case using run failed by simp
  next
    case 2
    then show ?case using run failed by simp
  next
    case 3
    define ths where "ths = row_threads L 0 0 (map snd grp)"
    from 3(3) run obtain np up where
      res: "res = zip (map fst grp) (map (row_commit (kds_length kds) np up) ths)"
      by (auto simp: ths_def)
    from mem obtain i where i: "i < length grp" "grp ! i = th" "res ! i = r"
      by (auto simp: set_zip)
    have li: "i < length ths" using i(1) by (simp add: ths_def)
    have "res ! i = (fst (grp ! i), row_commit (kds_length kds) np up (ths ! i))"
      unfolding res using i(1) li by simp
    then have cmi: "row_commit (kds_length kds) np up (ths ! i) = None"
      using i(2,3) r by simp
    have "fst (ths ! i) = t"
      unfolding ths_def using row_threads_nth [of i "map snd grp" L 0 0] i(1,2) by (simp add: th)
    then have "t = None" using cmi
      by (cases "ths ! i") (auto simp: row_commit_def split: option.splits)
    then show ?case by (simp add: thread_verbatim_def th r)
  qed
qed

lemma thread_verbatim_later:
  assumes ok: "row_group_ok L grp kds"
    and run: "gpuscan_projection_row L grp kds = (res, kds1)"
    and mem: "(th, r) \<in> set (zip grp res)"
    and later: "\<And>a. a < KDS_HEAD_LENGTH L + 4 * kds_nitems kds1 \<or> kds_length kds1 - kds_usage kds1 \<le> a
                  \<Longrightarrow> m a = kds_mem kds1 a"
  shows "thread_verbatim L m th r"
proof -
  have v: "thread_verbatim L (kds_mem kds1) th r" by (rule projection_row_thread [OF ok run mem])
  note c = projection_row_counters [OF ok run]
  show ?thesis
  proof (cases "snd r")
    case None
    then show ?thesis using v by (simp add: thread_verbatim_def split: option.splits)
  next
    case (Some p)
    obtain kcxt t where th: "th = (kcxt, t)" by (cases th)
    obtain idx off where p: "p = (idx, off)" by (cases p)
    obtain kcxt' where r: "r = (kcxt', Some (idx, off))" using Some p by (cases r) auto
    from projection_row_commit [OF ok run mem [unfolded th r] refl]
    obtain x where x: "t = Some x" and b: "idx < kds_nitems kds1"
      "kds_length kds - kds_usage kds1 \<le> off" by blast
    have l1: "load_bytes m off (tupitem_htup_offset L + t_len x)
       = load_bytes (kds_mem kds1) off (tupitem_htup_offset L + t_len x)"
      by (rule load_bytes_cong, rule later) (use b(2) c(4) in simp)
    have l2: "load_bytes m (KDS_HEAD_LENGTH L + 4 * idx) 4
       = load_bytes (kds_mem kds1) (KDS_HEAD_LENGTH L + 4 * idx) 4"
      by (rule load_bytes_cong, rule later) (use b(1) in simp)
    show ?thesis using v unfolding thread_verbatim_def th r x row_copied_def
      by (simp add: l1 l2)
  qed
qed

lemma projection_row_all_verbatim:
  "row_input_ok L sched kds \<Longrightarrow> projection_row_all L sched kds = (ress, kds') \<Longrightarrow>
   length ress = length sched \<and>
   (\<forall>(grp, res) \<in> set (zip sched ress).
      length res = length grp \<and>
      (\<forall>(th, r) \<in> set (zip grp res). thread_verbatim L (kds_mem kds') th r))"
proof (induction sched arbitrary: kds ress kds')
  case Nil
  then show ?case by auto
next
  case (Cons grp sched)
  obtain res kds1 where g: "gpuscan_projection_row L grp kds = (res, kds1)"
    by (cases "gpuscan_projection_row L grp kds")
  obtain ress1 kds2 where r: "projection_row_all L sched kds1 = (ress1, kds2)"
    by (cases "projection_row_all L sched kds1")
  have e: "ress = res # ress1" "kds' = kds2" using Cons.prems(2) g r by simp_all
  note ok = row_input_ok_Cons [OF Cons.prems(1)]
  note ih = Cons.IH [OF ok(2) [OF g] r]
  have head: "thread_verbatim L (kds_mem kds2) th rr" if "(th, rr) \<in> set (zip grp res)" for th rr
    by (rule thread_verbatim_later [OF ok(1) g that])
       (rule projection_row_all_frame [OF ok(2) [OF g] r])
  have len: "length res = length grp" by (rule projection_row_length [OF g])
  show ?case unfolding e using ih head len by auto
qed

lemmas row_eval = gpuscan_projection_row_def arithmetic_stairlike_add_def
  cl_uint_add_def cl_uint_sub_def STROM_SET_ERROR_def INIT_KERNEL_CONTEXT_def
  layout0_def tupitem0_def tupitem1_def kds_empty_def scenario_C_def Let_def
  row_required_def row_tuple_len_def MAXALIGN_def STROMALIGN_def TYPEALIGN_def
  row_commit_def row_item_index_def row_htup_offset_def

lemma scenario_C_ok: "row_input_ok layout0 scenario_C (kds_empty KDS_FORMAT_ROW 128 8)"
  by (simp add: row_input_ok_def row_count_def row_bytes_def row_raw_def item_ok_def row_eval)

lemma scenario_C_results:
  "fst (projection_row_all layout0 scenario_C (kds_empty KDS_FORMAT_ROW 128 8))
     = [[(INIT_KERNEL_CONTEXT, Some (0, 112)), (INIT_KERNEL_CONTEXT, None),
         (INIT_KERNEL_CONTEXT, Some (1, 88))],
        [(\<lparr> e_errcode = StromError_DataStoreNoSpace \<rparr>, None)]]"
  by (simp add: row_eval)

lemma scenario_C_counters:
  "kds_nitems (snd (projection_row_all layout0 scenario_C (kds_empty KDS_FORMAT_ROW 128 8))) = 3 \<and>
   kds_usage (snd (projection_row_all layout0 scenario_C (kds_empty KDS_FORMAT_ROW 128 8))) = 56"
  by (simp add: row_eval)

text \<open>
  Claim C5. Without device projection, for every schedule of groups on
  well-formed input, after the invocation every thread that committed a row
  (every surviving row) has in the destination, at its reserved
  \<^verbatim>\<open>htup_offset\<close>, the \<^verbatim>\<open>offsetof(kern_tupitem, htup) + t_len\<close> bytes of its
  source item, byte for byte, and its index-array entry holds that offset; no
  later group has overwritten either. A thread with a row that committed
  nothing had the no-space error raised.
\<close>

theorem projection_row_verbatim_copy:
  assumes "row_input_ok L sched kds"
  shows "length (fst (projection_row_all L sched kds)) = length sched \<and>
     (\<forall>(grp, res) \<in> set (zip sched (fst (projection_row_all L sched kds))).
        length res = length grp \<and>
        (\<forall>(th, r) \<in> set (zip grp res).
           thread_verbatim L (kds_mem (snd (projection_row_all L sched kds))) th r))"
  by (rule projection_row_all_verbatim [OF assms]) simp

theorem projection_row_verbatim_copy_witness:
  "load_bytes (kds_mem (snd (projection_row_all layout0 scenario_C (kds_empty KDS_FORMAT_ROW 128 8))))
      112 12 = item_bytes (tupitem0 10) \<and>
   load_bytes (kds_mem (snd (projection_row_all layout0 scenario_C (kds_empty KDS_FORMAT_ROW 128 8))))
      64 4 = cl_uint_bytes 112 \<and>
   load_bytes (kds_mem (snd (projection_row_all layout0 scenario_C (kds_empty KDS_FORMAT_ROW 128 8))))
      88 16 = item_bytes (tupitem1 20) \<and>
   load_bytes (kds_mem (snd (projection_row_all layout0 scenario_C (kds_empty KDS_FORMAT_ROW 128 8))))
      68 4 = cl_uint_bytes 88"
proof -
  note t = projection_row_verbatim_copy [OF scenario_C_ok, unfolded scenario_C_results]
  have "thread_verbatim layout0
          (kds_mem (snd (projection_row_all layout0 scenario_C (kds_empty KDS_FORMAT_ROW 128 8))))
          (INIT_KERNEL_CONTEXT, Some (tupitem0 10)) (INIT_KERNEL_CONTEXT, Some (0, 112)) \<and>
        thread_verbatim layout0
          (kds_mem (snd (projection_row_all layout0 scenario_C (kds_empty KDS_FORMAT_ROW 128 8))))
          (INIT_KERNEL_CONTEXT, Some (tupitem1 20)) (INIT_KERNEL_CONTEXT, Some (1, 88))"
    using t by (simp add: scenario_C_def)
  then show ?thesis
    by (simp add: thread_verbatim_def row_copied_def layout0_def tupitem0_def tupitem1_def)
qed

subsection \<open>The arena when threads read the counter for themselves\<close>














lemma row_extents_Nil [simp]: "row_extents L [] ress = []"
  by (simp add: row_extents_def List.map_filter_def)



lemma projection_row_reads_all_length:
  "projection_row_reads_all L sched kds = (ress, kds') \<Longrightarrow> length ress = length sched"
proof (induction sched arbitrary: kds ress kds')
  case Nil
  then show ?case by simp
next
  case (Cons grp sched)
  obtain res kds1 where g: "gpuscan_projection_row_reads L grp kds = (res, kds1)"
    by (cases "gpuscan_projection_row_reads L grp kds")
  obtain ress1 kds2 where r: "projection_row_reads_all L sched kds1 = (ress1, kds2)"
    by (cases "projection_row_reads_all L sched kds1")
  have e: "ress = res # ress1" using Cons.prems g r by simp
  show ?case unfolding e using Cons.IH [OF r] by simp
qed




text \<open>
  \<open>gpuscan_projection_row\<close> is the call in which every thread reads the
  counter as the \<^verbatim>\<open>atomicAdd\<close> of its own group left it.
\<close>

lemma row_threads_all_space:
  assumes "length cs = length ths" and "length ths = length ns"
    and "\<forall>n \<in> set ns. \<not> row_no_space L len up cnt n"
  shows "map (row_thread_result L len np up cnt) (zip (zip cs ths) ns)
           = zip cs (map (row_commit len np up) ths) \<and>
         fold (row_thread_store L len np up cnt) (zip (zip cs ths) ns) m
           = fold (row_store L len np up) ths m"
  using assms
proof (induction cs ths ns arbitrary: m rule: list_induct3)
  case Nil
  then show ?case by simp
next
  case (Cons c cs th ths n ns)
  then show ?case by (simp add: row_thread_result_def row_thread_store_def)
qed

lemma row_threads_no_space:
  assumes "length cs = length ths" and "length ths = length ns"
    and "\<forall>n \<in> set ns. row_no_space L len up cnt n"
  shows "map (row_thread_result L len np up cnt) (zip (zip cs ths) ns)
           = map (\<lambda>c. (STROM_SET_ERROR StromError_DataStoreNoSpace c, None)) cs \<and>
         fold (row_thread_store L len np up cnt) (zip (zip cs ths) ns) m = m"
  using assms
proof (induction cs ths ns arbitrary: m rule: list_induct3)
  case Nil
  then show ?case by simp
next
  case (Cons c cs th ths n ns)
  then show ?case by (simp add: row_thread_result_def row_thread_store_def)
qed

lemma gpuscan_projection_row_reads_own:
  "gpuscan_projection_row L grp kds
     = gpuscan_projection_row_reads L
         (map (\<lambda>th. (th, kds_nitems (snd (gpuscan_projection_row L grp kds)))) grp) kds"
proof -
  define tups where "tups = map snd grp"
  define bins where "bins = map (\<lambda>t. if t \<noteq> None then 1 else (0::nat)) tups"
  define offset1 where "offset1 = stairlike_offsets 0 bins"
  define count1 where "count1 = stairlike_total 0 bins"
  define np where "np = (if count1 > 0 then kds_nitems kds else 0)"
  define kds1 where "kds1 = (if count1 > 0
                  then kds\<lparr> kds_nitems := cl_uint_add (kds_nitems kds) count1 \<rparr> else kds)"
  define required where "required = map (row_required L) tups"
  define offset2 where "offset2 = stairlike_offsets 0 required"
  define count2 where "count2 = stairlike_total 0 required"
  define up where "up = (if count2 > 0 then kds_usage kds1 else 0)"
  define kds2 where "kds2 = (if count2 > 0
                        then kds1\<lparr> kds_usage := cl_uint_add (kds_usage kds1) count2 \<rparr> else kds1)"
  define ths where "ths = zip tups (zip offset1 (zip offset2 required))"
  define failed where "failed = map (\<lambda>(kcxt, t). (STROM_SET_ERROR StromError_DataStoreNoSpace kcxt,
                                        None :: (nat \<times> nat) option)) grp"
  have atomic: "gpuscan_projection_row L grp kds =
     (if cl_uint_add np count1 > kds_nrooms kds1 then (failed, kds1)
      else if row_no_space L (kds_length kds2) up count2 (kds_nitems kds2) then (failed, kds2)
      else (zip (map fst grp) (map (row_commit (kds_length kds2) np up) ths),
            kds2\<lparr> kds_mem := fold (row_store L (kds_length kds2) np up) ths (kds_mem kds2) \<rparr>))"
    by (simp add: gpuscan_projection_row_def arithmetic_stairlike_add_def Let_def
        tups_def bins_def offset1_def count1_def np_def kds1_def required_def offset2_def
        count2_def up_def kds2_def ths_def failed_def row_no_space_def del: map_map not_None_eq)
  have n12: "kds_nitems kds2 = kds_nitems kds1" by (simp add: kds2_def)
  have own: "kds_nitems (snd (gpuscan_projection_row L grp kds)) = kds_nitems kds1"
    unfolding atomic by (simp add: n12)
  define n where "n = kds_nitems kds1"
  define grp' where "grp' = map (\<lambda>th. (th, n)) grp"
  have g1: "map fst grp' = grp" by (simp add: grp'_def comp_def)
  have g2: "map snd grp' = map (\<lambda>th. n) grp" by (simp add: grp'_def comp_def)
  have g3: "map (\<lambda>((kcxt, t), nitems_read).
                      (STROM_SET_ERROR StromError_DataStoreNoSpace kcxt, None :: (nat \<times> nat) option)) grp'
      = failed"
    by (simp add: grp'_def failed_def comp_def case_prod_beta)
  define ws where "ws = zip (zip (map fst grp) ths) (map (\<lambda>th. n) grp)"
  have reads: "gpuscan_projection_row_reads L grp' kds =
     (if cl_uint_add np count1 > kds_nrooms kds1 then (failed, kds1)
      else (map (row_thread_result L (kds_length kds2) np up count2) ws,
            kds2\<lparr> kds_mem := fold (row_thread_store L (kds_length kds2) np up count2) ws (kds_mem kds2) \<rparr>))"
    unfolding gpuscan_projection_row_reads_def g1 g2 g3
    by (simp add: arithmetic_stairlike_add_def Let_def
        tups_def bins_def offset1_def count1_def np_def kds1_def required_def offset2_def
        count2_def up_def kds2_def ths_def ws_def del: map_map not_None_eq)
  have l1: "length (map fst grp) = length ths"
    by (simp add: ths_def tups_def offset1_def offset2_def required_def bins_def)
  have l2: "length ths = length (map (\<lambda>th. n) grp)"
    by (simp add: ths_def tups_def offset1_def offset2_def required_def bins_def)
  have f: "failed = map (\<lambda>c. (STROM_SET_ERROR StromError_DataStoreNoSpace c, None)) (map fst grp)"
    by (simp add: failed_def comp_def case_prod_beta)
  have "gpuscan_projection_row L grp kds = gpuscan_projection_row_reads L grp' kds"
  proof (cases "row_no_space L (kds_length kds2) up count2 n")
    case True
    then have "\<forall>k \<in> set (map (\<lambda>th. n) grp). row_no_space L (kds_length kds2) up count2 k" by simp
    from row_threads_no_space [OF l1 l2 this, of np "kds_mem kds2"]
    show ?thesis unfolding atomic reads ws_def [symmetric] f [symmetric] using True
      by (simp add: n12 n_def)
  next
    case False
    then have "\<forall>k \<in> set (map (\<lambda>th. n) grp). \<not> row_no_space L (kds_length kds2) up count2 k" by simp
    from row_threads_all_space [OF l1 l2 this, of np "kds_mem kds2"]
    show ?thesis unfolding atomic reads ws_def [symmetric] using False
      by (simp add: n12 n_def)
  qed
  then show ?thesis unfolding grp'_def n_def own .
qed












subsection \<open>The counters and the order of the groups\<close>

lemma nitems_mod:
  assumes "N < 2 ^ 32"
  shows "(if 0 < (s mod 2 ^ 32) then cl_uint_add N (s mod 2 ^ 32) else N) = (N + s) mod (2 ^ 32 :: nat)"
proof (cases "0 < s mod (2 ^ 32 :: nat)")
  case True
  then show ?thesis by (simp add: cl_uint_add_def mod_add_right_eq)
next
  case False
  then have z: "s mod (2 ^ 32 :: nat) = 0" by simp
  have "(N + s) mod (2 ^ 32 :: nat) = (N + s mod 2 ^ 32) mod 2 ^ 32" by (simp add: mod_add_right_eq)
  also have "\<dots> = N" unfolding z using assms by simp
  finally show ?thesis using False by simp
qed

lemma stairlike_total_mod: "stairlike_total 0 vs = sum_list vs mod 2 ^ 32"
  using stairlike_total_sum [of 0 vs] by simp

lemma projection_row_nitems_mod:
  assumes "kds_nitems kds < 2 ^ 32"
  shows "kds_nitems (snd (gpuscan_projection_row L grp kds)) = (kds_nitems kds + row_count grp) mod 2 ^ 32"
proof -
  let ?s = "sum_list (map (\<lambda>t. if t \<noteq> None then 1 else 0::nat) (map snd grp))"
  have "kds_nitems (snd (gpuscan_projection_row L grp kds))
      = (if 0 < ?s mod 2 ^ 32 then cl_uint_add (kds_nitems kds) (?s mod 2 ^ 32) else kds_nitems kds)"
    by (simp add: gpuscan_projection_row_def arithmetic_stairlike_add_def Let_def stairlike_total_mod
        split: prod.splits del: map_map not_None_eq)
  then show ?thesis unfolding nitems_mod [OF assms] row_count_def .
qed

lemma projection_slot_nitems_mod:
  assumes "kds_nitems kds < 2 ^ 32"
  shows "kds_nitems (snd (gpuscan_projection_slot deform grp kds)) = (kds_nitems kds + row_count grp) mod 2 ^ 32"
proof -
  let ?s = "sum_list (map (\<lambda>t. if t \<noteq> None then 1 else 0::nat) (map snd grp))"
  have "kds_nitems (snd (gpuscan_projection_slot deform grp kds))
      = (if 0 < ?s mod 2 ^ 32 then cl_uint_add (kds_nitems kds) (?s mod 2 ^ 32) else kds_nitems kds)"
    by (simp add: gpuscan_projection_slot_def arithmetic_stairlike_add_def Let_def stairlike_total_mod
        split: prod.splits del: map_map not_None_eq)
  then show ?thesis unfolding nitems_mod [OF assms] row_count_def .
qed

lemma gpuscan_qual_nitems_mod:
  assumes "kds_nitems (snd st) < 2 ^ 32"
  shows "kds_nitems (snd (gpuscan_qual L ev deform kds_src grp st))
           = (kds_nitems (snd st) + qual_count ev kds_src grp) mod 2 ^ 32"
proof -
  obtain kg kds where st: "st = (kg, kds)" by (cases st)
  have n: "kds_nitems kds < 2 ^ 32" using assms by (simp add: st)
  define threads where "threads = map (qual_tupitem ev kds_src) grp"
  have "snd (gpuscan_qual L ev deform kds_src grp (kg, kds))
     = (if kds_format kds = KDS_FORMAT_ROW then snd (gpuscan_projection_row L threads kds)
        else snd (gpuscan_projection_slot deform threads kds))"
    by (simp add: gpuscan_qual_def Let_def threads_def split: prod.splits)
  then show ?thesis
    unfolding st
    by (simp add: projection_row_nitems_mod [OF n] projection_slot_nitems_mod [OF n]
        qual_count_def threads_def)
qed

lemma gpuscan_qual_all_nitems_mod:
  "kds_nitems (snd st) < 2 ^ 32 \<Longrightarrow>
   kds_nitems (snd (gpuscan_qual_all L ev deform kds_src sched st))
     = (kds_nitems (snd st) + total_qual_count ev kds_src sched) mod 2 ^ 32"
proof (induction sched arbitrary: st)
  case Nil
  then show ?case by (simp add: gpuscan_qual_all_def total_qual_count_def)
next
  case (Cons grp sched)
  define st1 where "st1 = gpuscan_qual L ev deform kds_src grp st"
  have n1: "kds_nitems (snd st1) = (kds_nitems (snd st) + qual_count ev kds_src grp) mod 2 ^ 32"
    unfolding st1_def by (rule gpuscan_qual_nitems_mod [OF Cons.prems])
  then have "kds_nitems (snd st1) < 2 ^ 32" by simp
  from Cons.IH [OF this] show ?case
    unfolding n1
    by (simp add: gpuscan_qual_all_def st1_def total_qual_count_def mod_add_left_eq add.assoc)
qed

lemma total_qual_count_mset:
  assumes "mset sched1 = mset sched2"
  shows "total_qual_count ev kds_src sched1 = total_qual_count ev kds_src sched2"
proof -
  from assms have "mset (map (qual_count ev kds_src) sched1) = mset (map (qual_count ev kds_src) sched2)"
    by (metis mset_map)
  then have "sum_mset (mset (map (qual_count ev kds_src) sched1))
      = sum_mset (mset (map (qual_count ev kds_src) sched2))"
    by (rule arg_cong)
  then show ?thesis unfolding total_qual_count_def sum_mset_sum_list .
qed

text \<open>
  Claim C1, as amended. Both projectors add the group's count to \<^verbatim>\<open>nitems\<close>
  before they compare with \<^verbatim>\<open>nrooms\<close> and never take it back. For every
  schedule, every predicate and either format, from a destination with
  \<^verbatim>\<open>nitems \<le> nrooms\<close>: after the invocation \<^verbatim>\<open>nitems \<le> nrooms\<close> holds, or a
  non-success code is in the error cell. And one group's call of either
  projector leaves \<^verbatim>\<open>nitems\<close> as it was, or at most \<^verbatim>\<open>nrooms\<close>, or has the
  no-space error raised in every thread of the group.
\<close>

theorem gpuscan_qual_nitems_nrooms:
  "(kds_nitems kds \<le> kds_nrooms kds \<longrightarrow>
      kds_nitems (snd (gpuscan_qual_all L ev deform kds_src sched (kg, kds)))
        \<le> kds_nrooms (snd (gpuscan_qual_all L ev deform kds_src sched (kg, kds))) \<or>
      kg_errcode (fst (gpuscan_qual_all L ev deform kds_src sched (kg, kds))) \<noteq> StromError_Success) \<and>
   (kds_nitems (snd (gpuscan_projection_row L grp kds)) = kds_nitems kds \<or>
    kds_nitems (snd (gpuscan_projection_row L grp kds)) \<le> kds_nrooms kds \<or>
    (grp \<noteq> [] \<and>
     map fst (fst (gpuscan_projection_row L grp kds))
       = map (\<lambda>(kcxt, t). STROM_SET_ERROR StromError_DataStoreNoSpace kcxt) grp)) \<and>
   (kds_nitems (snd (gpuscan_projection_slot deform grp kds)) = kds_nitems kds \<or>
    kds_nitems (snd (gpuscan_projection_slot deform grp kds)) \<le> kds_nrooms kds \<or>
    (grp \<noteq> [] \<and>
     fst (gpuscan_projection_slot deform grp kds)
       = map (\<lambda>(kcxt, t). STROM_SET_ERROR StromError_DataStoreNoSpace kcxt) grp))"
proof (intro conjI impI)
  assume "kds_nitems kds \<le> kds_nrooms kds"
  then show "kds_nitems (snd (gpuscan_qual_all L ev deform kds_src sched (kg, kds)))
        \<le> kds_nrooms (snd (gpuscan_qual_all L ev deform kds_src sched (kg, kds))) \<or>
      kg_errcode (fst (gpuscan_qual_all L ev deform kds_src sched (kg, kds))) \<noteq> StromError_Success"
    using gpuscan_qual_all_nrooms [of "(kg, kds)" L ev deform kds_src sched] by simp
next
  have "gpuscan_projection_row L grp kds
      = (fst (gpuscan_projection_row L grp kds), snd (gpuscan_projection_row L grp kds))" by simp
  from projection_row_nitems [OF this]
  show "kds_nitems (snd (gpuscan_projection_row L grp kds)) = kds_nitems kds \<or>
    kds_nitems (snd (gpuscan_projection_row L grp kds)) \<le> kds_nrooms kds \<or>
    (grp \<noteq> [] \<and>
     map fst (fst (gpuscan_projection_row L grp kds))
       = map (\<lambda>(kcxt, t). STROM_SET_ERROR StromError_DataStoreNoSpace kcxt) grp)"
    by blast
next
  have "gpuscan_projection_slot deform grp kds
      = (fst (gpuscan_projection_slot deform grp kds), snd (gpuscan_projection_slot deform grp kds))" by simp
  from projection_slot_nitems [OF this]
  show "kds_nitems (snd (gpuscan_projection_slot deform grp kds)) = kds_nitems kds \<or>
    kds_nitems (snd (gpuscan_projection_slot deform grp kds)) \<le> kds_nrooms kds \<or>
    (grp \<noteq> [] \<and>
     fst (gpuscan_projection_slot deform grp kds)
       = map (\<lambda>(kcxt, t). STROM_SET_ERROR StromError_DataStoreNoSpace kcxt) grp)"
    by blast
qed

theorem gpuscan_qual_nitems_nrooms_witness:
  "kds_nitems (snd (gpuscan_qual_all layout0 eval_pass deform0 scenario_B_src [[0, 1, 2, 3]]
     (gpuscan_init 4, kds_empty KDS_FORMAT_ROW 1024 2))) = 4 \<and>
   kg_errcode (fst (gpuscan_qual_all layout0 eval_pass deform0 scenario_B_src [[0, 1, 2, 3]]
     (gpuscan_init 4, kds_empty KDS_FORMAT_ROW 1024 2))) \<noteq> StromError_Success"
proof -
  have h: "kds_nitems (kds_empty KDS_FORMAT_ROW 1024 2) \<le> kds_nrooms (kds_empty KDS_FORMAT_ROW 1024 2)"
    by (simp add: kds_empty_def)
  have n: "kds_nitems (snd (gpuscan_qual_all layout0 eval_pass deform0 scenario_B_src [[0, 1, 2, 3]]
     (gpuscan_init 4, kds_empty KDS_FORMAT_ROW 1024 2))) = 4"
   and r: "kds_nrooms (snd (gpuscan_qual_all layout0 eval_pass deform0 scenario_B_src [[0, 1, 2, 3]]
     (gpuscan_init 4, kds_empty KDS_FORMAT_ROW 1024 2))) = 2"
    unfolding scenario_B_row by (simp_all add: kds_empty_def)
  note t = gpuscan_qual_nitems_nrooms [where kds = "kds_empty KDS_FORMAT_ROW 1024 2" and L = layout0
      and ev = eval_pass and deform = deform0 and kds_src = scenario_B_src and sched = "[[0, 1, 2, 3]]"
      and kg = "gpuscan_init 4", THEN conjunct1, rule_format, OF h]
  show ?thesis using t unfolding n r by simp
qed

text \<open>
  Claim C9, as amended. Two schedules that run the same groups in different
  orders leave the same \<^verbatim>\<open>nitems\<close> and the same set of recorded row indices,
  provided the buffer starts empty and the number of pass or recheck rows
  does not exceed \<^verbatim>\<open>nrooms\<close>. For \<^verbatim>\<open>gpuscan_qual\<close>, two schedules of the same
  groups leave the same \<^verbatim>\<open>nitems\<close> in the destination and the same (untouched)
  result buffer.
\<close>

theorem writeback_order_independent:
  assumes "mset sched1 = mset sched2"
    and "kr_nrels kr = 1" and "kr_nitems kr = 0"
    and "total_qualifying sched1 \<le> kr_nrooms kr" and "kr_nrooms kr < 2 ^ 32"
    and "mset gs1 = mset gs2" and "kds_nitems (snd st) < 2 ^ 32"
  shows "kr_nitems (writeback_all sched1 kr) = kr_nitems (writeback_all sched2 kr) \<and>
         rindex_recorded (writeback_all sched1 kr) = rindex_recorded (writeback_all sched2 kr) \<and>
         kds_nitems (snd (gpuscan_qual_all L ev deform kds_src gs1 st))
           = kds_nitems (snd (gpuscan_qual_all L ev deform kds_src gs2 st)) \<and>
         kresults (fst (gpuscan_qual_all L ev deform kds_src gs1 st))
           = kresults (fst (gpuscan_qual_all L ev deform kds_src gs2 st))"
proof -
  have q: "total_qualifying sched2 = total_qualifying sched1"
    by (rule total_qualifying_mset [OF assms(1), symmetric])
  have n: "kr_nitems kr < 2 ^ 32" using assms(3) by simp
  have 1: "kr_nitems (writeback_all sched1 kr) = kr_nitems (writeback_all sched2 kr)"
    unfolding writeback_all_nitems [OF n] q ..
  have a: "rindex_recorded (writeback_all sched1 kr) = rindex_expected sched1"
    using assms(2-5) by (rule writeback_all_recorded)
  have b: "rindex_recorded (writeback_all sched2 kr) = rindex_expected sched2"
    using assms(2-5) unfolding q [symmetric] by (rule writeback_all_recorded)
  have 2: "rindex_recorded (writeback_all sched1 kr) = rindex_recorded (writeback_all sched2 kr)"
    unfolding a b by (rule rindex_expected_mset [OF assms(1)])
  have 3: "kds_nitems (snd (gpuscan_qual_all L ev deform kds_src gs1 st))
           = kds_nitems (snd (gpuscan_qual_all L ev deform kds_src gs2 st))"
    unfolding gpuscan_qual_all_nitems_mod [OF assms(7)] total_qual_count_mset [OF assms(6)] ..
  have 4: "kresults (fst (gpuscan_qual_all L ev deform kds_src gs1 st))
           = kresults (fst (gpuscan_qual_all L ev deform kds_src gs2 st))"
    unfolding gpuscan_qual_all_kresults ..
  show ?thesis using 1 2 3 4 by simp
qed

theorem writeback_order_independent_witness:
  "kr_nitems (writeback_all scenario_A (resultbuf_init 8))
     = kr_nitems (writeback_all (rev scenario_A) (resultbuf_init 8)) \<and>
   rindex_recorded (writeback_all scenario_A (resultbuf_init 8))
     = rindex_recorded (writeback_all (rev scenario_A) (resultbuf_init 8)) \<and>
   kds_nitems (snd (gpuscan_qual_all layout0 eval_pass deform0 scenario_B_src [[0, 1], [2, 3]]
       (gpuscan_init 4, kds_empty KDS_FORMAT_ROW 1024 4)))
     = kds_nitems (snd (gpuscan_qual_all layout0 eval_pass deform0 scenario_B_src [[2, 3], [0, 1]]
       (gpuscan_init 4, kds_empty KDS_FORMAT_ROW 1024 4)))"
  using writeback_order_independent [of scenario_A "rev scenario_A" "resultbuf_init 8"
      "[[0, 1], [2, 3]]" "[[2, 3], [0, 1]]" "(gpuscan_init 4, kds_empty KDS_FORMAT_ROW 1024 4)"
      layout0 eval_pass deform0 scenario_B_src]
  by (simp add: resultbuf_init_def total_qualifying_def qualifying_def scenario_A_def kds_empty_def)

subsection \<open>Errors of the predicate\<close>

lemma qual_tupitem_snd:
  "snd (qual_tupitem ev kds_src g) = (if qual_clean ev kds_src g then Some (kds_src ! g) else None)"
  by (simp add: qual_tupitem_def qual_clean_def qual_error_def Let_def split: prod.splits)

lemma qual_tupitem_demote: "qual_tupitem (qual_demote ev) kds_src = qual_tupitem ev kds_src"
  by (rule ext) (auto simp: qual_tupitem_def qual_demote_def Let_def split: prod.splits)

lemma gpuscan_qual_all_demote:
  "gpuscan_qual_all L (qual_demote ev) deform kds_src sched st
     = gpuscan_qual_all L ev deform kds_src sched st"
proof -
  have "gpuscan_qual L (qual_demote ev) deform kds_src = gpuscan_qual L ev deform kds_src"
    by (intro ext) (simp add: gpuscan_qual_def qual_tupitem_demote)
  then show ?thesis by (simp add: gpuscan_qual_all_def)
qed

lemma qual_count_clean: "qual_count ev kds_src grp = length (filter (qual_clean ev kds_src) grp)"
  by (induction grp) (simp_all add: qual_count_def row_count_def qual_tupitem_snd)

lemma total_qual_count_clean:
  "total_qual_count ev kds_src sched = length (filter (qual_clean ev kds_src) (concat sched))"
  by (induction sched) (simp_all add: total_qual_count_def qual_count_clean)

text \<open>What the slot projector stores.\<close>

lemma slot_fold_stored:
  "fold (slot_store deform n base) ths slots k = Some v \<Longrightarrow>
   slots k = Some v \<or> (\<exists>x off. (Some x, off) \<in> set ths \<and> v = deform x n)"
proof (induction ths arbitrary: slots)
  case Nil
  then show ?case by simp
next
  case (Cons th ths)
  obtain t off where th: "th = (t, off)" by (cases th)
  from Cons.IH [of "slot_store deform n base th slots"] Cons.prems
  consider "slot_store deform n base th slots k = Some v"
    | "\<exists>x off. (Some x, off) \<in> set ths \<and> v = deform x n"
    by auto
  then show ?case
  proof cases
    case 1
    then show ?thesis unfolding th
      by (cases t) (auto simp: slot_store_def Let_def split: if_splits)
  next
    case 2
    then show ?thesis by auto
  qed
qed

lemma projection_slot_stored:
  assumes "kds_slots (snd (gpuscan_projection_slot deform grp kds)) k = Some v"
  shows "kds_slots kds k = Some v \<or> (\<exists>th \<in> set grp. \<exists>x. snd th = Some x \<and> v = deform x (kds_ncols kds))"
proof -
  define tups where "tups = map snd grp"
  define bins where "bins = map (\<lambda>t. if t \<noteq> None then 1 else (0::nat)) tups"
  define offset where "offset = stairlike_offsets 0 bins"
  define cnt where "cnt = stairlike_total 0 bins"
  define base where "base = (if cnt > 0 then kds_nitems kds else 0)"
  define kds1 where "kds1 = (if cnt > 0
                  then kds\<lparr> kds_nitems := cl_uint_add (kds_nitems kds) cnt \<rparr> else kds)"
  have s: "kds_slots (snd (gpuscan_projection_slot deform grp kds)) =
     (if cl_uint_add base cnt > kds_nrooms kds1 then kds_slots kds
      else fold (slot_store deform (kds_ncols kds) base) (zip tups offset) (kds_slots kds))"
    by (simp add: gpuscan_projection_slot_def arithmetic_stairlike_add_def Let_def
        tups_def bins_def offset_def cnt_def base_def kds1_def del: map_map not_None_eq)
  show ?thesis
  proof (cases "cl_uint_add base cnt > kds_nrooms kds1")
    case True
    then show ?thesis using assms unfolding s by simp
  next
    case False
    then have "fold (slot_store deform (kds_ncols kds) base) (zip tups offset) (kds_slots kds) k = Some v"
      using assms unfolding s by simp
    from slot_fold_stored [OF this] show ?thesis
    proof
      assume "kds_slots kds k = Some v"
      then show ?thesis by simp
    next
      assume "\<exists>x off. (Some x, off) \<in> set (zip tups offset) \<and> v = deform x (kds_ncols kds)"
      then obtain x off where z: "(Some x, off) \<in> set (zip tups offset)" and v: "v = deform x (kds_ncols kds)"
        by blast
      from z have "Some x \<in> set tups" by (rule set_zip_leftD)
      then obtain th where "th \<in> set grp" "snd th = Some x" by (auto simp: tups_def)
      then show ?thesis using v by blast
    qed
  qed
qed

lemma projection_slot_fixed:
  "kds_format (snd (gpuscan_projection_slot deform grp kds)) = kds_format kds \<and>
   kds_ncols (snd (gpuscan_projection_slot deform grp kds)) = kds_ncols kds"
  by (simp add: gpuscan_projection_slot_def arithmetic_stairlike_add_def Let_def split: prod.splits)

lemma gpuscan_qual_slot:
  assumes "kds_format kds \<noteq> KDS_FORMAT_ROW"
  shows "snd (gpuscan_qual L ev deform kds_src grp (kg, kds))
           = snd (gpuscan_projection_slot deform (map (qual_tupitem ev kds_src) grp) kds)"
  using assms by (simp add: gpuscan_qual_def Let_def split: prod.splits)

lemma gpuscan_qual_stored:
  assumes "kds_format kds \<noteq> KDS_FORMAT_ROW"
    and "kds_slots (snd (gpuscan_qual L ev deform kds_src grp (kg, kds))) k = Some v"
  shows "kds_slots kds k = Some v \<or>
         (\<exists>g \<in> set grp. qual_clean ev kds_src g \<and> v = deform (kds_src ! g) (kds_ncols kds))"
proof -
  from assms(2) [unfolded gpuscan_qual_slot [OF assms(1)]]
  have "kds_slots kds k = Some v \<or>
     (\<exists>th \<in> set (map (qual_tupitem ev kds_src) grp). \<exists>x. snd th = Some x \<and> v = deform x (kds_ncols kds))"
    by (rule projection_slot_stored)
  then show ?thesis
  proof
    assume "kds_slots kds k = Some v"
    then show ?thesis by simp
  next
    assume "\<exists>th \<in> set (map (qual_tupitem ev kds_src) grp). \<exists>x. snd th = Some x \<and> v = deform x (kds_ncols kds)"
    then obtain g x where g: "g \<in> set grp" "snd (qual_tupitem ev kds_src g) = Some x"
      and v: "v = deform x (kds_ncols kds)" by auto
    from g(2) have "qual_clean ev kds_src g \<and> x = kds_src ! g"
      unfolding qual_tupitem_snd by (simp split: if_splits)
    then show ?thesis using g(1) v by auto
  qed
qed

lemma gpuscan_qual_all_stored:
  "kds_format (snd st) \<noteq> KDS_FORMAT_ROW \<Longrightarrow>
   kds_slots (snd (gpuscan_qual_all L ev deform kds_src sched st)) k = Some v \<Longrightarrow>
   kds_slots (snd st) k = Some v \<or>
   (\<exists>g \<in> set (concat sched). qual_clean ev kds_src g \<and> v = deform (kds_src ! g) (kds_ncols (snd st)))"
proof (induction sched arbitrary: st)
  case Nil
  then show ?case by (simp add: gpuscan_qual_all_def)
next
  case (Cons grp sched)
  obtain kg kds where st: "st = (kg, kds)" by (cases st)
  define st1 where "st1 = gpuscan_qual L ev deform kds_src grp (kg, kds)"
  have f: "kds_format kds \<noteq> KDS_FORMAT_ROW" using Cons.prems(1) by (simp add: st)
  have s1: "snd st1 = snd (gpuscan_projection_slot deform (map (qual_tupitem ev kds_src) grp) kds)"
    unfolding st1_def by (rule gpuscan_qual_slot [OF f])
  have fx: "kds_format (snd st1) = kds_format kds" "kds_ncols (snd st1) = kds_ncols kds"
    unfolding s1 using projection_slot_fixed by blast+
  have f1: "kds_format (snd st1) \<noteq> KDS_FORMAT_ROW" using f fx(1) by simp
  have run: "gpuscan_qual_all L ev deform kds_src (grp # sched) st
      = gpuscan_qual_all L ev deform kds_src sched st1"
    by (simp add: gpuscan_qual_all_def st st1_def)
  from Cons.IH [OF f1 Cons.prems(2) [unfolded run]]
  show ?case
  proof
    assume "kds_slots (snd st1) k = Some v"
    from gpuscan_qual_stored [OF f this [unfolded st1_def]] show ?thesis
      by (auto simp: st)
  next
    assume "\<exists>g \<in> set (concat sched). qual_clean ev kds_src g \<and> v = deform (kds_src ! g) (kds_ncols (snd st1))"
    then show ?thesis unfolding fx(2) by (auto simp: st)
  qed
qed

text \<open>Every thread of a group reaches the write-back with the code of its predicate, if it has one.\<close>

lemma gpuscan_qual_writeback:
  "\<exists>kcxts. length kcxts = length grp \<and>
     kg_errcode (fst (gpuscan_qual L ev deform kds_src grp (kg, kds)))
       = fold kern_writeback_error_status kcxts (kg_errcode kg) \<and>
     (\<forall>i < length grp. grp ! i < length kds_src \<and> qual_error ev kds_src (grp ! i) \<noteq> StromError_Success \<longrightarrow>
        e_errcode (kcxts ! i) = qual_error ev kds_src (grp ! i))"
proof -
  have run: "gpuscan_qual L ev deform kds_src grp (kg, kds)
     = (fst (gpuscan_qual L ev deform kds_src grp (kg, kds)), snd (gpuscan_qual L ev deform kds_src grp (kg, kds)))"
    by simp
  from gpuscan_qual_kcxts [OF run] obtain kcxts
    where f: "kg_errcode (fst (gpuscan_qual L ev deform kds_src grp (kg, kds)))
                = fold kern_writeback_error_status kcxts (kg_errcode kg)"
    and k: "kcxts = map (\<lambda>g. fst (qual_tupitem ev kds_src g)) grp \<or>
         kcxts = map (\<lambda>g. STROM_SET_ERROR StromError_DataStoreNoSpace (fst (qual_tupitem ev kds_src g))) grp"
    by blast
  have l: "length kcxts = length grp" using k by auto
  have e: "e_errcode (kcxts ! i) = qual_error ev kds_src (grp ! i)"
    if "i < length grp" "grp ! i < length kds_src" "qual_error ev kds_src (grp ! i) \<noteq> StromError_Success" for i
    using k that by (auto simp: qual_tupitem_errcode set_error_errcode)
  show ?thesis using l f e by blast
qed


text \<open>
  Claim C8. The projector calls of lines 360 and 362 are read as passing the
  thread's \<^verbatim>\<open>tupitem\<close>. A thread in range whose predicate evaluation leaves a
  non-success code gets \<^verbatim>\<open>tupitem = NULL\<close> and keeps that code, also through a
  \<^verbatim>\<open>STROM_SET_ERROR\<close> of the projector. For every schedule the invocation
  leaves the error cell and the destination exactly as it does with the
  predicate that reports such a row as not visible; \<^verbatim>\<open>nitems\<close> grows by the
  number of rows of the schedule that are in range, visible and evaluated
  without error, so by no errored row; and in the slot format every slot that
  the invocation fills holds the values of such a row. Every thread of a
  group, also one whose predicate failed, reaches the write-back of line 367,
  the failed one with the code of its predicate. If any thread in range of
  the schedule had such an error, the error cell ends with a non-success code,
  and the code in the cell is always the cell's initial code,
  data-store-no-space or the predicate error of a row of the schedule.
\<close>

theorem gpuscan_qual_predicate_errors:
  "(\<forall>g. g < length kds_src \<and> qual_error ev kds_src g \<noteq> StromError_Success \<longrightarrow>
       snd (qual_tupitem ev kds_src g) = None \<and>
       e_errcode (fst (qual_tupitem ev kds_src g)) = qual_error ev kds_src g \<and>
       e_errcode (STROM_SET_ERROR StromError_DataStoreNoSpace (fst (qual_tupitem ev kds_src g)))
         = qual_error ev kds_src g) \<and>
   gpuscan_qual_all L ev deform kds_src sched st
     = gpuscan_qual_all L (qual_demote ev) deform kds_src sched st \<and>
   (kds_nitems (snd st) < 2 ^ 32 \<longrightarrow>
      kds_nitems (snd (gpuscan_qual_all L ev deform kds_src sched st))
        = (kds_nitems (snd st) + length (filter (qual_clean ev kds_src) (concat sched))) mod 2 ^ 32) \<and>
   (kds_format (snd st) \<noteq> KDS_FORMAT_ROW \<longrightarrow>
      (\<forall>k v. kds_slots (snd (gpuscan_qual_all L ev deform kds_src sched st)) k = Some v \<longrightarrow>
         kds_slots (snd st) k = Some v \<or>
         (\<exists>g \<in> set (concat sched). qual_clean ev kds_src g \<and>
            v = deform (kds_src ! g) (kds_ncols (snd st))))) \<and>
   (\<exists>kcxts. length kcxts = length grp \<and>
      kg_errcode (fst (gpuscan_qual L ev deform kds_src grp (kg, kds)))
        = fold kern_writeback_error_status kcxts (kg_errcode kg) \<and>
      (\<forall>i < length grp.
         grp ! i < length kds_src \<and> qual_error ev kds_src (grp ! i) \<noteq> StromError_Success \<longrightarrow>
           e_errcode (kcxts ! i) = qual_error ev kds_src (grp ! i))) \<and>
   ((\<exists>g \<in> set (concat sched). g < length kds_src \<and> qual_error ev kds_src g \<noteq> StromError_Success) \<longrightarrow>
      kg_errcode (fst (gpuscan_qual_all L ev deform kds_src sched st)) \<noteq> StromError_Success) \<and>
   kg_errcode (fst (gpuscan_qual_all L ev deform kds_src sched st))
     \<in> {kg_errcode (fst st), StromError_DataStoreNoSpace}
         \<union> {qual_error ev kds_src g | g. g \<in> set (concat sched) \<and> g < length kds_src}"
proof -
  have 1: "\<forall>g. g < length kds_src \<and> qual_error ev kds_src g \<noteq> StromError_Success \<longrightarrow>
       snd (qual_tupitem ev kds_src g) = None \<and>
       e_errcode (fst (qual_tupitem ev kds_src g)) = qual_error ev kds_src g \<and>
       e_errcode (STROM_SET_ERROR StromError_DataStoreNoSpace (fst (qual_tupitem ev kds_src g)))
         = qual_error ev kds_src g"
    by (simp add: qual_tupitem_demoted qual_tupitem_errcode set_error_errcode)
  have 2: "gpuscan_qual_all L ev deform kds_src sched st
     = gpuscan_qual_all L (qual_demote ev) deform kds_src sched st"
    by (rule gpuscan_qual_all_demote [symmetric])
  have 3: "kds_nitems (snd st) < 2 ^ 32 \<longrightarrow>
      kds_nitems (snd (gpuscan_qual_all L ev deform kds_src sched st))
        = (kds_nitems (snd st) + length (filter (qual_clean ev kds_src) (concat sched))) mod 2 ^ 32"
    unfolding total_qual_count_clean [symmetric] using gpuscan_qual_all_nitems_mod by blast
  have 4: "kds_format (snd st) \<noteq> KDS_FORMAT_ROW \<longrightarrow>
      (\<forall>k v. kds_slots (snd (gpuscan_qual_all L ev deform kds_src sched st)) k = Some v \<longrightarrow>
         kds_slots (snd st) k = Some v \<or>
         (\<exists>g \<in> set (concat sched). qual_clean ev kds_src g \<and>
            v = deform (kds_src ! g) (kds_ncols (snd st))))"
    using gpuscan_qual_all_stored by blast
  note 5 = gpuscan_qual_writeback [of grp L ev deform kds_src kg kds]
  have 6: "(\<exists>g \<in> set (concat sched). g < length kds_src \<and> qual_error ev kds_src g \<noteq> StromError_Success) \<longrightarrow>
      kg_errcode (fst (gpuscan_qual_all L ev deform kds_src sched st)) \<noteq> StromError_Success"
    by (simp add: gpuscan_qual_all_reports)
  note 7 = gpuscan_qual_all_range [of L ev deform kds_src sched st]
  show ?thesis using 1 2 3 4 5 6 7 by (intro conjI)
qed


lemma predicate_error_clean:
  "filter (qual_clean eval_len [tupitem0 10, tupitem1 20]) (concat [[0, 1]]) = [0]"
  by (simp add: qual_clean_def eval_defs2)

theorem gpuscan_qual_predicate_errors_witness:
  "qual_error eval_len [tupitem0 10, tupitem1 20] 1 = StromError_Other 7 \<and>
   snd (qual_tupitem eval_len [tupitem0 10, tupitem1 20] 1) = None \<and>
   e_errcode (fst (qual_tupitem eval_len [tupitem0 10, tupitem1 20] 1)) = StromError_Other 7 \<and>
   kds_nitems (snd (gpuscan_qual_all layout0 eval_len deform0 [tupitem0 10, tupitem1 20] [[0, 1]]
     (gpuscan_init 2, kds_empty KDS_FORMAT_SLOT 1024 2))) = 1 \<and>
   (\<forall>k. kds_slots (snd (gpuscan_qual_all layout0 eval_len deform0 [tupitem0 10, tupitem1 20] [[0, 1]]
           (gpuscan_init 2, kds_empty KDS_FORMAT_SLOT 1024 2))) k
         \<noteq> Some (deform0 (tupitem1 20) 1)) \<and>
   (\<exists>kcxts. length kcxts = 2 \<and>
      kg_errcode (fst (gpuscan_qual layout0 eval_len deform0 [tupitem0 10, tupitem1 20] [0, 1]
        (gpuscan_init 2, kds_empty KDS_FORMAT_SLOT 1024 2)))
        = fold kern_writeback_error_status kcxts StromError_Success \<and>
      e_errcode (kcxts ! 1) = StromError_Other 7) \<and>
   kg_errcode (fst (gpuscan_qual_all layout0 eval_len deform0 [tupitem0 10, tupitem1 20] [[0, 1]]
     (gpuscan_init 2, kds_empty KDS_FORMAT_SLOT 1024 2))) = StromError_Other 7"
proof -
  let ?src = "[tupitem0 10, tupitem1 20]"
  let ?st = "(gpuscan_init 2, kds_empty KDS_FORMAT_SLOT 1024 2)"
  let ?run = "gpuscan_qual_all layout0 eval_len deform0 ?src [[0, 1]] ?st"
  have q: "qual_error eval_len ?src 1 = StromError_Other 7"
    by (simp add: eval_defs2)
  have h: "(1::nat) < length ?src \<and> qual_error eval_len ?src 1 \<noteq> StromError_Success"
    unfolding q by simp
  have m: "\<exists>g \<in> set (concat [[0, 1::nat]]). g < length ?src \<and>
              qual_error eval_len ?src g \<noteq> StromError_Success"
    using h by simp
  have n0: "kds_nitems (snd ?st) < 2 ^ 32" by (simp add: kds_empty_def)
  have f0: "kds_format (snd ?st) \<noteq> KDS_FORMAT_ROW" by (simp add: kds_empty_def)
  note t = gpuscan_qual_predicate_errors [where kds_src = ?src and ev = eval_len
      and sched = "[[0, 1]]" and L = layout0 and deform = deform0 and st = ?st
      and grp = "[0, 1]" and kg = "gpuscan_init 2" and kds = "kds_empty KDS_FORMAT_SLOT 1024 2"]
  from t h have d: "snd (qual_tupitem eval_len ?src 1) = None \<and>
       e_errcode (fst (qual_tupitem eval_len ?src 1)) = qual_error eval_len ?src 1"
    by blast
  from t n0 have "kds_nitems (snd ?run)
      = (kds_nitems (snd ?st) + length (filter (qual_clean eval_len ?src) (concat [[0, 1]]))) mod 2 ^ 32"
    by blast
  then have n: "kds_nitems (snd ?run) = 1"
    unfolding predicate_error_clean by (simp add: kds_empty_def)
  from t f0 have s: "\<forall>k v. kds_slots (snd ?run) k = Some v \<longrightarrow>
         kds_slots (snd ?st) k = Some v \<or>
         (\<exists>g \<in> set (concat [[0, 1]]). qual_clean eval_len ?src g \<and>
            v = deform0 (?src ! g) (kds_ncols (snd ?st)))"
    by blast
  have ne: "deform0 (tupitem1 20) 1 \<noteq> deform0 (tupitem0 10) 1"
    by (simp add: deform0_def tupitem0_def tupitem1_def)
  have sl: "kds_slots (snd ?run) k \<noteq> Some (deform0 (tupitem1 20) 1)" for k
  proof
    assume "kds_slots (snd ?run) k = Some (deform0 (tupitem1 20) 1)"
    with s have "kds_slots (snd ?st) k = Some (deform0 (tupitem1 20) 1) \<or>
         (\<exists>g \<in> set (concat [[0, 1]]). qual_clean eval_len ?src g \<and>
            deform0 (tupitem1 20) 1 = deform0 (?src ! g) (kds_ncols (snd ?st)))"
      by blast
    then show False using ne
      by (auto simp: kds_empty_def qual_clean_def eval_defs2)
  qed
  from t obtain kcxts where k: "length kcxts = length [0, 1::nat]"
      "kg_errcode (fst (gpuscan_qual layout0 eval_len deform0 ?src [0, 1] ?st))
        = fold kern_writeback_error_status kcxts (kg_errcode (gpuscan_init 2))"
      "\<forall>i < length [0, 1::nat].
         [0, 1] ! i < length ?src \<and> qual_error eval_len ?src ([0, 1] ! i) \<noteq> StromError_Success \<longrightarrow>
           e_errcode (kcxts ! i) = qual_error eval_len ?src ([0, 1] ! i)"
    by blast
  from k(3) have "[0, 1] ! 1 < length ?src \<and> qual_error eval_len ?src ([0, 1] ! 1) \<noteq> StromError_Success \<longrightarrow>
           e_errcode (kcxts ! 1) = qual_error eval_len ?src ([0, 1] ! 1)"
    by (rule allE [of _ 1]) simp
  moreover have "qual_error eval_len ?src (Suc 0) = StromError_Other 7" using q by simp
  ultimately have k3: "e_errcode (kcxts ! 1) = StromError_Other 7" by simp
  have k1: "length kcxts = 2" using k(1) by simp
  have k2: "kg_errcode (fst (gpuscan_qual layout0 eval_len deform0 ?src [0, 1] ?st))
        = fold kern_writeback_error_status kcxts StromError_Success"
    using k(2) by (simp add: gpuscan_init_def)
  have w: "\<exists>kcxts. length kcxts = 2 \<and>
      kg_errcode (fst (gpuscan_qual layout0 eval_len deform0 ?src [0, 1] ?st))
        = fold kern_writeback_error_status kcxts StromError_Success \<and>
      e_errcode (kcxts ! 1) = StromError_Other 7"
    using k1 k2 k3 by (intro exI [of _ kcxts] conjI)
  from t m have "kg_errcode (fst ?run) \<noteq> StromError_Success"
    by blast
  with d n sl w show ?thesis unfolding q predicate_error_run by simp
qed

end
